theory Spec2Isabelle
  imports Complex_Main "HOL-Library.Product_Lexorder"
begin

section \<open>Characters and strings of the text being parsed\<close>

text \<open>
  The program works on Python \<open>str\<close> values. A \<^typ>\<open>char\<close> stands for a code point
  below 256, so a \<^typ>\<open>string\<close> is a Python string of such code points. The character
  classes below are the ones Python 3 uses for \<open>str\<close> patterns and \<open>str\<close> methods,
  restricted to that range.
\<close>

definition code :: "char \<Rightarrow> nat" where
  "code c = of_char c"

definition LF :: char where
  "LF = CHR 0x0A"

definition CR :: char where
  "CR = CHR 0x0D"

text \<open>\<open>\s\<close> in a pattern and the characters removed by \<open>str.strip()\<close>.\<close>

definition is_space :: "char \<Rightarrow> bool" where
  "is_space c = ((9 \<le> code c \<and> code c \<le> 13) \<or> (28 \<le> code c \<and> code c \<le> 32)
     \<or> code c = 133 \<or> code c = 160)"

text \<open>\<open>\d\<close>.\<close>

definition is_digit :: "char \<Rightarrow> bool" where
  "is_digit c = (48 \<le> code c \<and> code c \<le> 57)"

text \<open>\<open>\w\<close>: alphanumeric (as \<open>str.isalnum\<close>) or the underscore.\<close>

definition is_word :: "char \<Rightarrow> bool" where
  "is_word c = (is_digit c \<or> (65 \<le> code c \<and> code c \<le> 90) \<or> (97 \<le> code c \<and> code c \<le> 122)
     \<or> code c = 95
     \<or> code c \<in> {170, 178, 179, 181, 185, 186, 188, 189, 190}
     \<or> (192 \<le> code c \<and> code c \<le> 214) \<or> (216 \<le> code c \<and> code c \<le> 246)
     \<or> 248 \<le> code c)"

text \<open>The line boundaries of \<open>str.splitlines()\<close>.\<close>

definition is_linebreak :: "char \<Rightarrow> bool" where
  "is_linebreak c = ((10 \<le> code c \<and> code c \<le> 13) \<or> (28 \<le> code c \<and> code c \<le> 30)
     \<or> code c = 133)"

text \<open>\<open>.\<close> without \<open>re.S\<close>, and with it.\<close>

definition not_LF :: "char \<Rightarrow> bool" where
  "not_LF c = (c \<noteq> LF)"

definition any_char :: "char \<Rightarrow> bool" where
  "any_char c = True"

text \<open>Case folding of the ASCII letters, for literals matched under \<open>re.I\<close>.\<close>

definition lower :: "char \<Rightarrow> char" where
  "lower c = (if 65 \<le> code c \<and> code c \<le> 90 then char_of (code c + 32) else c)"

definition strip :: "string \<Rightarrow> string" where
  "strip s = rev (dropWhile is_space (rev (dropWhile is_space s)))"

fun splitlines :: "string \<Rightarrow> string list" where
  "splitlines [] = []"
| "splitlines [c] = (if is_linebreak c then [[]] else [[c]])"
| "splitlines (c # d # cs) =
     (if c = CR \<and> d = LF then [] # splitlines cs
      else if is_linebreak c then [] # splitlines (d # cs)
      else (case splitlines (d # cs) of [] \<Rightarrow> [[c]] | l # ls \<Rightarrow> (c # l) # ls))"

text \<open>\<open>s.replace(old, '')\<close>: every non-overlapping occurrence of \<open>old\<close> is removed,
  scanning from the left; with an empty \<open>old\<close> nothing is removed.\<close>

function str_remove :: "string \<Rightarrow> string \<Rightarrow> string" where
  "str_remove old s =
     (if old = [] \<or> s = [] then s
      else if take (length old) s = old then str_remove old (drop (length old) s)
      else hd s # str_remove old (tl s))"
  by pat_completeness auto
termination
  by (relation "measure (\<lambda>(old, s). length s)") auto

section \<open>Regular expressions with Python's backtracking order\<close>

text \<open>
  The constructs the program's patterns use. \<open>Star\<close> and \<open>Lazy\<close> repeat one character
  class (\<open>\s*\<close>, \<open>.*\<close>, \<open>.*?\<close>); \<open>Opt\<close> is a greedy \<open>( )?\<close>; \<open>Grp n\<close> is the
  capturing group number \<open>n\<close>; \<open>Bol\<close>, \<open>Eol\<close> and \<open>WordB\<close> are \<open>^\<close>, \<open>$\<close> and \<open>\b\<close>.
\<close>

datatype rx =
    Eps
  | Chr "char \<Rightarrow> bool"
  | Seq rx rx
  | Star "char \<Rightarrow> bool"
  | Lazy "char \<Rightarrow> bool"
  | Opt rx
  | Grp nat rx
  | Bol
  | Eol
  | WordB

text \<open>
  A matcher state: the character before the current position (\<open>None\<close> at the start of the
  string), the text still to be read, and the groups captured so far (most recent first).
\<close>

type_synonym mstate = "char option \<times> string \<times> (nat \<times> string) list"

fun star_greedy :: "(char \<Rightarrow> bool) \<Rightarrow> char option \<Rightarrow> string \<Rightarrow> (char option \<times> string) list" where
  "star_greedy P p [] = [(p, [])]"
| "star_greedy P p (c # cs) = (if P c then star_greedy P (Some c) cs else []) @ [(p, c # cs)]"

fun star_lazy :: "(char \<Rightarrow> bool) \<Rightarrow> char option \<Rightarrow> string \<Rightarrow> (char option \<times> string) list" where
  "star_lazy P p [] = [(p, [])]"
| "star_lazy P p (c # cs) = (p, c # cs) # (if P c then star_lazy P (Some c) cs else [])"

definition word_before :: "char option \<Rightarrow> bool" where
  "word_before p = (case p of None \<Rightarrow> False | Some c \<Rightarrow> is_word c)"

definition word_after :: "string \<Rightarrow> bool" where
  "word_after s = (case s of [] \<Rightarrow> False | c # _ \<Rightarrow> is_word c)"

text \<open>
  \<open>run r st\<close> lists every way \<open>r\<close> can match from \<open>st\<close>, in the order in which Python's
  backtracking matcher tries them; the match Python reports is the first one.
\<close>

fun run :: "rx \<Rightarrow> mstate \<Rightarrow> mstate list" where
  "run Eps st = [st]"
| "run (Chr P) (p, s, g) =
     (case s of [] \<Rightarrow> [] | c # cs \<Rightarrow> if P c then [(Some c, cs, g)] else [])"
| "run (Seq a b) st = concat (map (run b) (run a st))"
| "run (Star P) (p, s, g) = map (\<lambda>(p', s'). (p', s', g)) (star_greedy P p s)"
| "run (Lazy P) (p, s, g) = map (\<lambda>(p', s'). (p', s', g)) (star_lazy P p s)"
| "run (Opt a) st = run a st @ [st]"
| "run (Grp n a) (p, s, g) =
     map (\<lambda>(p', s', g'). (p', s', (n, take (length s - length s') s) # g')) (run a (p, s, g))"
| "run Bol (p, s, g) = (if p = None then [(p, s, g)] else [])"
| "run Eol (p, s, g) = (if s = [] \<or> s = [LF] then [(p, s, g)] else [])"
| "run WordB (p, s, g) = (if word_before p \<noteq> word_after s then [(p, s, g)] else [])"

fun seqs :: "rx list \<Rightarrow> rx" where
  "seqs [] = Eps"
| "seqs [r] = r"
| "seqs (r # rs) = Seq r (seqs rs)"

definition ch :: "char \<Rightarrow> rx" where
  "ch x = Chr (\<lambda>c. c = x)"

definition ch_ci :: "char \<Rightarrow> rx" where
  "ch_ci x = Chr (\<lambda>c. lower c = lower x)"

definition lit_ci :: "string \<Rightarrow> rx" where
  "lit_ci s = seqs (map ch_ci s)"

definition plus :: "(char \<Rightarrow> bool) \<Rightarrow> rx" where
  "plus P = Seq (Chr P) (Star P)"

text \<open>\<open>re.match\<close>: the first match at the start of the string, as its groups.\<close>

definition re_match :: "rx \<Rightarrow> string \<Rightarrow> (nat \<times> string) list option" where
  "re_match r s = (case run r (None, s, []) of [] \<Rightarrow> None | (p, s', g) # _ \<Rightarrow> Some g)"

text \<open>
  The scan of \<open>re.search\<close>: the leftmost position with a match. The result is the text
  skipped before the match and the matcher state at the end of the match.
\<close>

fun scan :: "rx \<Rightarrow> char option \<Rightarrow> string \<Rightarrow> (string \<times> mstate) option" where
  "scan r p s =
     (case run r (p, s, []) of
        st # _ \<Rightarrow> Some ([], st)
      | [] \<Rightarrow> (case s of
           [] \<Rightarrow> None
         | c # cs \<Rightarrow> map_option (\<lambda>(pre, st). (c # pre, st)) (scan r (Some c) cs)))"

definition re_search :: "rx \<Rightarrow> string \<Rightarrow> (nat \<times> string) list option" where
  "re_search r s = map_option (\<lambda>(pre, p, s', g). g) (scan r None s)"

definition group :: "(nat \<times> string) list \<Rightarrow> nat \<Rightarrow> string" where
  "group g n = (case map_of g n of None \<Rightarrow> [] | Some x \<Rightarrow> x)"

text \<open>
  \<open>re.split\<close> for a pattern without groups: the pieces between successive matches. Both
  patterns the program splits on consume at least one character; a match of length zero,
  which they cannot produce, ends the scan here.
\<close>

function re_split_from :: "rx \<Rightarrow> char option \<Rightarrow> string \<Rightarrow> string list" where
  "re_split_from r p s =
     (case scan r p s of
        None \<Rightarrow> [s]
      | Some (pre, p', s', g) \<Rightarrow>
          if length s' < length s then pre # re_split_from r p' s' else [s])"
  by pat_completeness auto
termination
  by (relation "measure (\<lambda>(r, p, s). length s)") auto

definition re_split :: "rx \<Rightarrow> string \<Rightarrow> string list" where
  "re_split r s = re_split_from r None s"

section \<open>The patterns of the program\<close>

text \<open>\<open>\n\s*Total Data\s*\n\<close> with \<open>re.IGNORECASE\<close>.\<close>

definition rx_total_data :: rx where
  "rx_total_data =
     seqs [ch LF, Star is_space, lit_ci ''Total Data'', Star is_space, ch LF]"

text \<open>\<open>Daily Data\s*\n(.*?)\n\s*Hourly Data\<close> with \<open>re.S | re.I\<close>.\<close>

definition rx_daily_hourly :: rx where
  "rx_daily_hourly =
     seqs [lit_ci ''Daily Data'', Star is_space, ch LF, Grp 1 (Lazy any_char),
           ch LF, Star is_space, lit_ci ''Hourly Data'']"

text \<open>\<open>Daily Data\s*\n(.*)\<close> with \<open>re.S | re.I\<close>.\<close>

definition rx_daily :: rx where
  "rx_daily = seqs [lit_ci ''Daily Data'', Star is_space, ch LF, Grp 1 (Star any_char)]"

text \<open>\<open>20\d{2}-\d{2}-\d{2}\<close>.\<close>

definition rx_date :: rx where
  "rx_date =
     seqs [ch CHR ''2'', ch CHR ''0'', Chr is_digit, Chr is_digit, ch CHR ''-'',
           Chr is_digit, Chr is_digit, ch CHR ''-'', Chr is_digit, Chr is_digit]"

text \<open>\<open>^(20\d{2}-\d{2}-\d{2})(?:\s+\d{1,2}:\d{2}:\d{2})?\b(.*)$\<close>.\<close>

definition rx_iso_line :: rx where
  "rx_iso_line =
     seqs [Bol, Grp 1 rx_date,
           Opt (seqs [plus is_space, Chr is_digit, Opt (Chr is_digit), ch CHR '':'',
                      Chr is_digit, Chr is_digit, ch CHR '':'', Chr is_digit, Chr is_digit]),
           WordB, Grp 2 (Star not_LF), Eol]"

text \<open>\<open>^(\d{1,2}\s+\w+(?:\s+to\s+\d{1,2}\s+\w+)?)\s+(.*)$\<close> with \<open>re.I\<close>.\<close>

definition rx_phrase_line :: rx where
  "rx_phrase_line =
     seqs [Bol,
           Grp 1 (seqs [Chr is_digit, Opt (Chr is_digit), plus is_space, plus is_word,
                        Opt (seqs [plus is_space, lit_ci ''to'', plus is_space,
                                   Chr is_digit, Opt (Chr is_digit), plus is_space,
                                   plus is_word])]),
           plus is_space, Grp 2 (Star not_LF), Eol]"

text \<open>\<open>(20\d{2}-\d{2}-\d{2})\<close>, searched anywhere in the line.\<close>

definition rx_iso_any :: rx where
  "rx_iso_any = Grp 1 rx_date"

text \<open>\<open>^-?\d+(\.\d+)?$\<close>.\<close>

definition rx_numeric :: rx where
  "rx_numeric =
     seqs [Bol, Opt (ch CHR ''-''), plus is_digit,
           Opt (Grp 1 (Seq (ch CHR ''.'') (plus is_digit))), Eol]"

text \<open>\<open>\s+\<close>.\<close>

definition rx_spaces :: rx where
  "rx_spaces = plus is_space"

section \<open>Numbers and dates\<close>

text \<open>
  \<open>float(t)\<close>. A metric is modelled by the exact decimal value of its literal, a
  \<^typ>\<open>rat\<close>; the rounding to a binary double is not modelled. \<open>None\<close> stands for the
  \<open>ValueError\<close> that \<open>float\<close> raises. The literals accepted here (after the
  surrounding whitespace is removed: an optional sign, digits, and optionally a point
  and more digits) are a part of what \<open>float\<close> accepts, which also reads exponents,
  \<open>inf\<close>, \<open>nan\<close> and underscores; the program calls it on no such text.
\<close>

definition digit_val :: "char \<Rightarrow> nat" where
  "digit_val c = code c - 48"

definition digits_val :: "string \<Rightarrow> nat" where
  "digits_val ds = foldl (\<lambda>n c. 10 * n + digit_val c) 0 ds"

definition unsigned_float :: "string \<Rightarrow> rat option" where
  "unsigned_float s =
     (let ip = takeWhile is_digit s; r = dropWhile is_digit s in
      if ip = [] then None
      else if r = [] then Some (of_nat (digits_val ip))
      else if hd r = CHR ''.'' \<and> list_all is_digit (tl r)
        then Some (of_nat (digits_val ip) + of_nat (digits_val (tl r)) / 10 ^ length (tl r))
      else None)"

definition py_float :: "string \<Rightarrow> rat option" where
  "py_float s =
     (case strip s of
        [] \<Rightarrow> None
      | c # cs \<Rightarrow>
          if c = CHR ''-'' then map_option uminus (unsigned_float cs)
          else if c = CHR ''+'' then unsigned_float cs
          else unsigned_float (c # cs))"

text \<open>
  \<open>pd.to_datetime(s, dayfirst=False, errors='coerce')\<close> on the text of a date. The
  program passes only texts matched by \<open>20\d{2}-\d{2}-\d{2}\<close>; such a text gives the
  calendar date it names, or \<open>NaT\<close> (here \<open>None\<close>) when there is no such day. A date is
  year, month, day; the order on dates is the lexicographic one.
\<close>

type_synonym date = "nat \<times> nat \<times> nat"

definition leap_year :: "nat \<Rightarrow> bool" where
  "leap_year y = (y mod 4 = 0 \<and> (y mod 100 \<noteq> 0 \<or> y mod 400 = 0))"

definition days_in_month :: "nat \<Rightarrow> nat \<Rightarrow> nat" where
  "days_in_month y m =
     (if m = 2 then (if leap_year y then 29 else 28)
      else if m \<in> {4, 6, 9, 11} then 30 else 31)"

definition try_parse_date :: "string \<Rightarrow> date option" where
  "try_parse_date s =
     (if length s = 10 \<and> list_all is_digit (take 4 s) \<and> s ! 4 = CHR ''-''
         \<and> list_all is_digit (take 2 (drop 5 s)) \<and> s ! 7 = CHR ''-''
         \<and> list_all is_digit (drop 8 s)
      then (let y = digits_val (take 4 s); m = digits_val (take 2 (drop 5 s));
                d = digits_val (drop 8 s)
            in if 1 \<le> m \<and> m \<le> 12 \<and> 1 \<le> d \<and> d \<le> days_in_month y m
               then Some (y, m, d) else None)
      else None)"

section \<open>The helper functions of the program\<close>

definition split_app_blocks :: "string \<Rightarrow> string list" where
  "split_app_blocks text =
     (let parts = re_split rx_total_data text in
      if length parts \<le> 1 then [text] else tl parts)"

definition find_daily_section :: "string \<Rightarrow> string" where
  "find_daily_section block =
     (case re_search rx_daily_hourly block of
        Some m \<Rightarrow> group m 1
      | None \<Rightarrow>
          (case re_search rx_daily block of
             Some m2 \<Rightarrow> group m2 1
           | None \<Rightarrow> []))"

text \<open>The loop of \<open>_last_numeric_token\<close> over \<open>reversed(tokens)\<close>; a \<open>ValueError\<close> of
  \<open>float\<close> is caught and the loop goes on.\<close>

fun numeric_scan :: "string list \<Rightarrow> rat option" where
  "numeric_scan [] = None"
| "numeric_scan (t # ts) =
     (if re_match rx_numeric t \<noteq> None
      then (case py_float t of Some v \<Rightarrow> Some v | None \<Rightarrow> numeric_scan ts)
      else numeric_scan ts)"

definition last_numeric_token :: "string list \<Rightarrow> rat option" where
  "last_numeric_token tokens = numeric_scan (rev tokens)"

text \<open>A row: \<open>(date_str, parsed_date_or_None, rest_text, ivt_value_or_None)\<close>.\<close>

record row =
  date_raw :: string
  date_parsed :: "date option"
  rest :: string
  IVT :: "rat option"

text \<open>The body of the loop of \<open>parse_daily_lines_to_rows\<close>, on a stripped, non-empty
  line: the rows it appends.\<close>

definition parse_line :: "string \<Rightarrow> row list" where
  "parse_line line =
     (case re_match rx_iso_line line of
        Some m \<Rightarrow>
          (let date_str = group m 1;
               rest = strip (group m 2);
               tokens = (if rest \<noteq> [] then re_split rx_spaces rest else []);
               ivt = last_numeric_token tokens
           in [\<lparr>date_raw = date_str, date_parsed = try_parse_date date_str,
                 rest = rest, IVT = ivt\<rparr>])
      | None \<Rightarrow>
     (case re_match rx_phrase_line line of
        Some m2 \<Rightarrow>
          (let date_like = group m2 1;
               rest = group m2 2;
               tokens = re_split rx_spaces rest;
               ivt = last_numeric_token tokens
           in [\<lparr>date_raw = date_like, date_parsed = None, rest = rest, IVT = ivt\<rparr>])
      | None \<Rightarrow>
     (case re_search rx_iso_any line of
        Some mm \<Rightarrow>
          (let date_str = group mm 1;
               rest = strip (str_remove date_str line);
               tokens = re_split rx_spaces rest;
               ivt = last_numeric_token tokens
           in [\<lparr>date_raw = date_str, date_parsed = try_parse_date date_str,
                 rest = rest, IVT = ivt\<rparr>])
      | None \<Rightarrow>
          (let tokens = re_split rx_spaces line;
               ivt = last_numeric_token tokens
           in if ivt \<noteq> None
              then [\<lparr>date_raw = take 40 line @ (if length line > 40 then ''...'' else []),
                     date_parsed = None, rest = line, IVT = ivt\<rparr>]
              else []))))"

definition parse_daily_lines_to_rows :: "string \<Rightarrow> row list" where
  "parse_daily_lines_to_rows daily_text =
     concat (map (\<lambda>line. if strip line = [] then [] else parse_line (strip line))
                 (splitlines daily_text))"

section \<open>The report: rows of a block, observations, combined series\<close>

text \<open>The rows of one block, as the first loop of \<open>generate_report\<close> computes them:
  the daily section, or the head of the block when there is none.\<close>

definition block_rows :: "string \<Rightarrow> row list" where
  "block_rows block =
     (let daily_text = find_daily_section block;
          daily_text = (if daily_text = [] then take 5000 block else daily_text)
      in parse_daily_lines_to_rows daily_text)"

text \<open>\<open>df.dropna(subset=['IVT'])\<close>: a row without a metric has \<open>NaN\<close> in that column.\<close>

definition dropna_IVT :: "row list \<Rightarrow> row list" where
  "dropna_IVT df = filter (\<lambda>r. IVT r \<noteq> None) df"

definition ivt_values :: "row list \<Rightarrow> rat list" where
  "ivt_values df = concat (map (\<lambda>r. case IVT r of None \<Rightarrow> [] | Some v \<Rightarrow> [v]) df)"

definition mean :: "rat list \<Rightarrow> rat" where
  "mean vs = sum_list vs / of_nat (length vs)"

definition median :: "rat list \<Rightarrow> rat" where
  "median vs =
     (let xs = sort vs; n = length xs in
      if odd n then xs ! (n div 2) else (xs ! (n div 2 - 1) + xs ! (n div 2)) / 2)"

text \<open>
  What the observations page says about one application: the numbers of the four
  statistics lines and whether each of the two notes is written. The arithmetic is exact
  here; the program computes in doubles and prints six decimals.
\<close>

record observation =
  parsed_rows :: nat
  ivt_mean :: rat
  ivt_median :: rat
  ivt_min :: rat
  ivt_max :: rat
  note_high :: bool
  note_all_zero :: bool

definition observe :: "row list \<Rightarrow> observation option" where
  "observe rows =
     (let df = dropna_IVT rows in
      if df = [] then None
      else (let ivt = ivt_values df in
        Some \<lparr>parsed_rows = length df, ivt_mean = mean ivt, ivt_median = median ivt,
              ivt_min = Min (set ivt), ivt_max = Max (set ivt),
              note_high = list_ex (\<lambda>v. v > 1 / 2) ivt,
              note_all_zero = list_all (\<lambda>v. v = 0) ivt\<rparr>))"

text \<open>\<open>df_sorted[['date_parsed','IVT']].dropna()\<close>: the rows with a date and a metric.\<close>

definition dated_values :: "row list \<Rightarrow> (date \<times> rat) list" where
  "dated_values df =
     concat (map (\<lambda>r. case (date_parsed r, IVT r) of
                         (Some d, Some v) \<Rightarrow> [(d, v)] | _ \<Rightarrow> []) df)"

text \<open>\<open>groupby('date_parsed')['IVT'].mean()\<close>: one entry per date, dates ascending.\<close>

definition groupby_mean :: "(date \<times> rat) list \<Rightarrow> (date \<times> rat) list" where
  "groupby_mean tmp =
     map (\<lambda>d. (d, mean (map snd (filter (\<lambda>(d', v). d' = d) tmp))))
         (sort (remdups (map fst tmp)))"

text \<open>The frame one application adds to \<open>combined_date_frames\<close>, if it adds one; the
  number \<open>i\<close> of the application names the column \<open>IVT_app_i\<close>.\<close>

definition app_frame :: "nat \<Rightarrow> row list \<Rightarrow> (nat \<times> (date \<times> rat) list) option" where
  "app_frame i rows =
     (let df = dropna_IVT rows in
      if df = [] then None
      else if length (filter (\<lambda>r. date_parsed r \<noteq> None) df) > 0
        then Some (i, groupby_mean (dated_values df))
      else None)"

definition combined_date_frames :: "row list list \<Rightarrow> (nat \<times> (date \<times> rat) list) list" where
  "combined_date_frames apps =
     concat (map (\<lambda>(i, rows). case app_frame i rows of None \<Rightarrow> [] | Some f \<Rightarrow> [f])
                 (zip [1 ..< Suc (length apps)] apps))"

text \<open>\<open>pd.concat(frames, axis=1).sort_index()\<close>: the index is the union of the dates of
  the frames, ascending; a column has \<open>NaN\<close> (here \<open>None\<close>) where its frame has no date.\<close>

record merged =
  index :: "date list"
  columns :: "(nat \<times> rat option list) list"

definition concat_frames :: "(nat \<times> (date \<times> rat) list) list \<Rightarrow> merged" where
  "concat_frames frames =
     (let idx = sort (remdups (concat (map (\<lambda>(i, f). map fst f) frames))) in
      \<lparr>index = idx, columns = map (\<lambda>(i, f). (i, map (map_of f) idx)) frames\<rparr>)"

definition combined_series :: "row list list \<Rightarrow> merged option" where
  "combined_series apps =
     (let frames = combined_date_frames apps in
      if frames = [] then None else Some (concat_frames frames))"

section \<open>Example inputs\<close>

text \<open>Rows that carry the given metric values and nothing else.\<close>

definition metric_rows :: "rat list \<Rightarrow> row list" where
  "metric_rows vs = map (\<lambda>v. \<lparr>date_raw = [], date_parsed = None, rest = [], IVT = Some v\<rparr>) vs"

section \<open>Notions used to state the properties of the combined series\<close>

text \<open>An application has a dated record when some row has both a parsed date and a
  metric; \<open>dates_of\<close> are the dates of such rows, \<open>values_on d\<close> the metrics of the rows
  dated \<open>d\<close>, and \<open>cell\<close> their average, if there is one.\<close>

definition has_dated :: "row list \<Rightarrow> bool" where
  "has_dated rows = (\<exists>r \<in> set rows. date_parsed r \<noteq> None \<and> IVT r \<noteq> None)"

definition values_on :: "date \<Rightarrow> row list \<Rightarrow> rat list" where
  "values_on d rows =
     concat (map (\<lambda>r. case IVT r of None \<Rightarrow> []
                       | Some v \<Rightarrow> if date_parsed r = Some d then [v] else []) rows)"

definition cell :: "row list \<Rightarrow> date \<Rightarrow> rat option" where
  "cell rows d = (if values_on d rows = [] then None else Some (mean (values_on d rows)))"

definition dates_of :: "row list \<Rightarrow> date set" where
  "dates_of rows = {d. \<exists>r \<in> set rows. date_parsed r = Some d \<and> IVT r \<noteq> None}"

text \<open>Three applications: the first with two metrics on one date, one on another, a
  row without date and a row without metric; the second without any dated record; the
  third sharing one date with the first and having one of its own.\<close>

definition mk_row :: "date option \<Rightarrow> rat option \<Rightarrow> row" where
  "mk_row d v = \<lparr>date_raw = [], date_parsed = d, rest = [], IVT = v\<rparr>"

definition example_apps :: "row list list" where
  "example_apps =
     [[mk_row (Some (2025, 9, 13)) (Some (1 / 2)), mk_row (Some (2025, 9, 12)) (Some (1 / 10)),
       mk_row None (Some 7), mk_row (Some (2025, 9, 12)) (Some (3 / 10)),
       mk_row (Some (2025, 9, 20)) None],
      [mk_row None (Some 3), mk_row None None],
      [mk_row (Some (2025, 9, 14)) (Some 0), mk_row (Some (2025, 9, 13)) (Some 1)]]"

definition example_merged :: merged where
  "example_merged =
     \<lparr>index = [(2025, 9, 12), (2025, 9, 13), (2025, 9, 14)],
      columns = [(1, [Some (1 / 5), Some (1 / 2), None]), (3, [None, Some 1, Some 0])]\<rparr>"

section \<open>Notions used to state the properties of the matcher\<close>

text \<open>The character before the position reached after reading \<open>w\<close> from a position
  whose previous character is \<open>p\<close>.\<close>

definition prev_after :: "char option \<Rightarrow> string \<Rightarrow> char option" where
  "prev_after p w = (if w = [] then p else Some (last w))"

section \<open>Notions used to state the properties of the numeric scan\<close>

text \<open>
  The numeric-literal grammar in words: an optional minus sign, digits, and optionally a
  point and more digits. \<open>literal_shape\<close> says it of the three parts of a text,
  \<open>numeric_literal\<close> decides it for a text; \<open>chomp\<close> removes one newline from the end of
  a text, and \<open>decimal_value\<close> reads a literal as a decimal number.
\<close>

definition numeric_literal :: "string \<Rightarrow> bool" where
  "numeric_literal t =
     (let u = (case t of [] \<Rightarrow> [] | c # cs \<Rightarrow> if c = CHR ''-'' then cs else t);
          ip = takeWhile is_digit u; r = dropWhile is_digit u
      in ip \<noteq> [] \<and>
         (r = [] \<or> (hd r = CHR ''.'' \<and> tl r \<noteq> [] \<and> list_all is_digit (tl r))))"

definition chomp :: "string \<Rightarrow> string" where
  "chomp t = (if t \<noteq> [] \<and> last t = LF then butlast t else t)"

definition decimal_value :: "string \<Rightarrow> rat" where
  "decimal_value t =
     (let neg = (t \<noteq> [] \<and> hd t = CHR ''-'');
          u = (if neg then tl t else t);
          ip = takeWhile is_digit u;
          fs = drop (Suc (length ip)) u;
          v = of_nat (digits_val ip) + of_nat (digits_val fs) / 10 ^ length fs
      in if neg then - v else v)"

definition literal_shape :: "string \<Rightarrow> string \<Rightarrow> string \<Rightarrow> bool" where
  "literal_shape sg ds fr =
     ((sg = [] \<or> sg = ''-'') \<and> ds \<noteq> [] \<and> list_all is_digit ds \<and>
      (fr = [] \<or> (\<exists>fs. fr = CHR ''.'' # fs \<and> fs \<noteq> [] \<and> list_all is_digit fs)))"

section \<open>Notions used to state the properties of the block segmenter\<close>

text \<open>The outcome the matcher reports: the first one, if there is any.\<close>

definition first_outcome :: "mstate list \<Rightarrow> mstate option" where
  "first_outcome xs = (case xs of [] \<Rightarrow> None | x # _ \<Rightarrow> Some x)"

text \<open>
  The text that follows the last line feed of the whitespace at the start of a text, if
  that whitespace has a line feed.
\<close>

fun after_last_LF :: "string \<Rightarrow> string option" where
  "after_last_LF [] = None"
| "after_last_LF (c # cs) =
     (if is_space c
      then (case after_last_LF cs of
              Some r \<Rightarrow> Some r
            | None \<Rightarrow> if c = LF then Some cs else None)
      else None)"

text \<open>
  A delimiter occurrence at the start of a text: a line feed, optional whitespace, the
  phrase in any letter case, and whitespace up to its last line feed. The result is the
  text after the occurrence.
\<close>

definition delimiter_end :: "string \<Rightarrow> string option" where
  "delimiter_end s =
     (case s of
        [] \<Rightarrow> None
      | c # cs \<Rightarrow>
          if c = LF
          then (let a = dropWhile is_space cs in
                if map lower (take 10 a) = ''total data'' then after_last_LF (drop 10 a)
                else None)
          else None)"

text \<open>A text has a delimiter occurrence when one starts at some position of it.\<close>

fun has_delimiter :: "string \<Rightarrow> bool" where
  "has_delimiter [] = False"
| "has_delimiter (c # cs) = (delimiter_end (c # cs) \<noteq> None \<or> has_delimiter cs)"

text \<open>The text before the leftmost delimiter occurrence, and the text after it.\<close>

fun cut_at_delimiter :: "string \<Rightarrow> (string \<times> string) option" where
  "cut_at_delimiter [] = None"
| "cut_at_delimiter (c # cs) =
     (case delimiter_end (c # cs) of
        Some r \<Rightarrow> Some ([], r)
      | None \<Rightarrow> map_option (\<lambda>(pre, r). (c # pre, r)) (cut_at_delimiter cs))"

text \<open>
  The pieces of a text between its delimiter occurrences, taken from the left, each
  occurrence starting after the end of the one before.
\<close>

function pieces :: "string \<Rightarrow> string list" where
  "pieces s =
     (case cut_at_delimiter s of
        None \<Rightarrow> [s]
      | Some (pre, r) \<Rightarrow> if length r < length s then pre # pieces r else [s])"
  by pat_completeness auto
termination
  by (relation "measure length") auto




section \<open>Notions used to state the properties of the row extractor\<close>

text \<open>
  The matcher with a continuation: every outcome of \<open>r\<close> is continued by \<open>F\<close>, in the
  order of the outcomes. A continuation rejects a class of characters when it has no
  outcome from a text that starts with a character of the class.
\<close>

definition runk :: "rx \<Rightarrow> (mstate \<Rightarrow> mstate list) \<Rightarrow> mstate \<Rightarrow> mstate list" where
  "runk r F st = concat (map F (run r st))"

definition rejects :: "(char \<Rightarrow> bool) \<Rightarrow> (mstate \<Rightarrow> mstate list) \<Rightarrow> bool" where
  "rejects P F = (\<forall>p c cs g. P c \<longrightarrow> F (p, c # cs, g) = [])"

text \<open>
  A number of one or two digits, whitespace and a word at the start of a text: this
  prefix and the text after it.
\<close>

definition number_word :: "string \<Rightarrow> (string \<times> string) option" where
  "number_word s =
     (let n = takeWhile is_digit s; s1 = dropWhile is_digit s;
          ws = takeWhile is_space s1; s2 = dropWhile is_space s1;
          w = takeWhile is_word s2
      in if n \<noteq> [] \<and> length n \<le> 2 \<and> ws \<noteq> [] \<and> w \<noteq> []
         then Some (n @ ws @ w, dropWhile is_word s2) else None)"

text \<open>
  Whitespace, \<open>to\<close> in any letter case, whitespace, and again a number and a word, at the
  start of a text: this prefix and the text after it.
\<close>

definition to_extension :: "string \<Rightarrow> (string \<times> string) option" where
  "to_extension s =
     (let ws = takeWhile is_space s; a = dropWhile is_space s;
          ws' = takeWhile is_space (drop 2 a); b = dropWhile is_space (drop 2 a)
      in if ws \<noteq> [] \<and> map lower (take 2 a) = ''to'' \<and> ws' \<noteq> []
         then (case number_word b of
                 Some (nw, r) \<Rightarrow> Some (ws @ take 2 a @ ws' @ nw, r)
               | None \<Rightarrow> None)
         else None)"

text \<open>
  The date phrase at the start of a line and the text after the whitespace that follows
  it: a number and a word, extended by \<open>to\<close>, a number and a word when these are there and
  are followed by whitespace.
\<close>

definition phrase_split :: "string \<Rightarrow> (string \<times> string) option" where
  "phrase_split line =
     (case number_word line of
        None \<Rightarrow> None
      | Some (nw, s3) \<Rightarrow>
          (let base = (if s3 \<noteq> [] \<and> is_space (hd s3)
                       then Some (nw, dropWhile is_space s3) else None)
           in case to_extension s3 of
                Some (e, s4) \<Rightarrow>
                  if s4 \<noteq> [] \<and> is_space (hd s4)
                  then Some (nw @ e, dropWhile is_space s4) else base
              | None \<Rightarrow> base))"

text \<open>The tokens of a text: the pieces between its maximal runs of whitespace.\<close>

function tokens_of :: "string \<Rightarrow> string list" where
  "tokens_of s =
     (let a = takeWhile (\<lambda>c. \<not> is_space c) s; b = dropWhile (\<lambda>c. \<not> is_space c) s
      in if b = [] then [a] else a # tokens_of (dropWhile is_space b))"
  by pat_completeness auto
termination
proof (relation "measure length")
  show "wf (measure length)" by simp
next
  fix s a b :: string
  assume b: "b = dropWhile (\<lambda>c. \<not> is_space c) s" and n: "b \<noteq> []"
  from n obtain c cs where c: "b = c # cs" by (cases b) auto
  have "is_space c" using hd_dropWhile [of "\<lambda>c. \<not> is_space c" s] n unfolding b [symmetric] c by simp
  then have "length (dropWhile is_space b) \<le> length cs"
    unfolding c using length_dropWhile_le [of is_space cs] by simp
  also have "\<dots> < length b" unfolding c by simp
  also have "\<dots> \<le> length s" unfolding b by (rule length_dropWhile_le)
  finally show "(dropWhile is_space b, s) \<in> measure length" by simp
qed

text \<open>The metric of a text: the value of its last token that is a numeric literal.\<close>

definition metric_of :: "string \<Rightarrow> rat option" where
  "metric_of s =
     (case find numeric_literal (rev (tokens_of s)) of
        None \<Rightarrow> None
      | Some t \<Rightarrow> Some (decimal_value t))"

text \<open>A date text: \<open>20\<close>, two digits, a hyphen, two digits, a hyphen, two digits.\<close>

definition iso_date_text :: "string \<Rightarrow> bool" where
  "iso_date_text d =
     list_all2 (\<lambda>P c. P c)
       [\<lambda>c. c = CHR ''2'', \<lambda>c. c = CHR ''0'', is_digit, is_digit, \<lambda>c. c = CHR ''-'',
        is_digit, is_digit, \<lambda>c. c = CHR ''-'', is_digit, is_digit] d"


text \<open>
  Whitespace and a clock time, one or two digits and twice a colon and two digits, at the
  start of a text: this prefix and the text after it.
\<close>

definition clock_time :: "string \<Rightarrow> (string \<times> string) option" where
  "clock_time s =
     (let ws = takeWhile is_space s; a = dropWhile is_space s;
          h = takeWhile is_digit a; b = dropWhile is_digit a
      in if ws \<noteq> [] \<and> h \<noteq> [] \<and> length h \<le> 2
            \<and> list_all2 (\<lambda>P c. P c)
                 [\<lambda>c. c = CHR '':'', is_digit, is_digit, \<lambda>c. c = CHR '':'', is_digit, is_digit]
                 (take 6 b)
         then Some (ws @ h @ take 6 b, drop 6 b) else None)"

text \<open>
  The date at the start of a line and the text after it: the line starts with a date
  text; a clock time after the date is left out when a word does not go on after it;
  otherwise a word must not go on after the date.
\<close>

definition iso_split :: "string \<Rightarrow> (string \<times> string) option" where
  "iso_split line =
     (if iso_date_text (take 10 line)
      then (let r = drop 10 line;
                base = (if word_after r then None else Some (take 10 line, r))
            in case clock_time r of
                 Some (t, r') \<Rightarrow> if word_after r' then base else Some (take 10 line, r')
               | None \<Rightarrow> base)
      else None)"


section \<open>Notions used to state the properties of the section locator\<close>

text \<open>The texts that start at the positions of a text, from the left.\<close>

fun tails :: "string \<Rightarrow> string list" where
  "tails [] = [[]]"
| "tails (c # cs) = (c # cs) # tails cs"

text \<open>The ways to cut a text in two, the shortest first part first.\<close>

fun splits :: "string \<Rightarrow> (string \<times> string) list" where
  "splits [] = [([], [])]"
| "splits (c # cs) = ([], c # cs) # map (\<lambda>(u, v). (c # u, v)) (splits cs)"

text \<open>The first result that a function gives on the elements of a list.\<close>

fun first_some :: "('a \<Rightarrow> 'b option) \<Rightarrow> 'a list \<Rightarrow> 'b option" where
  "first_some f [] = None"
| "first_some f (x # xs) = (case f x of Some y \<Rightarrow> Some y | None \<Rightarrow> first_some f xs)"

text \<open>The groups of the outcome the matcher reports.\<close>

definition first_groups :: "mstate list \<Rightarrow> (nat \<times> string) list option" where
  "first_groups xs = map_option (\<lambda>(p, s, g). g) (first_outcome xs)"

text \<open>The texts after the line feeds of the whitespace at the start of a text, the one
  after the last line feed first.\<close>

fun after_LFs :: "string \<Rightarrow> string list" where
  "after_LFs [] = []"
| "after_LFs (c # cs) =
     (if is_space c then after_LFs cs @ (if c = LF then [cs] else []) else [])"

text \<open>An end marker at the start of a text: a line feed, optional whitespace and the
  phrase \<open>Hourly Data\<close> in any letter case.\<close>

definition end_at :: "string \<Rightarrow> bool" where
  "end_at s =
     (case s of
        [] \<Rightarrow> False
      | c # cs \<Rightarrow> c = LF \<and> map lower (take 11 (dropWhile is_space cs)) = ''hourly data'')"

text \<open>The part of a text before the first end marker that starts in it.\<close>

fun upto_end :: "string \<Rightarrow> string option" where
  "upto_end [] = None"
| "upto_end (c # cs) =
     (if end_at (c # cs) then Some [] else map_option ((#) c) (upto_end cs))"

text \<open>
  A start marker at the start of a text is the phrase \<open>Daily Data\<close> in any letter case
  and whitespace with a line feed. The section that starts here begins after a line feed
  of that whitespace and goes up to the first end marker from there on; the last line
  feed after which there is an end marker is taken.
\<close>

definition between_at :: "string \<Rightarrow> string option" where
  "between_at s =
     (if map lower (take 10 s) = ''daily data''
      then first_some upto_end (after_LFs (drop 10 s)) else None)"

text \<open>The text after a start marker at the start of a text: what follows the last line
  feed of its whitespace.\<close>

definition after_start :: "string \<Rightarrow> string option" where
  "after_start s =
     (if map lower (take 10 s) = ''daily data'' then after_last_LF (drop 10 s) else None)"

text \<open>
  The section of a block: the section that starts at the leftmost position where one
  starts; without any, the text after the leftmost start marker; without any, nothing.
\<close>

definition section_of :: "string \<Rightarrow> string" where
  "section_of block =
     (case first_some between_at (tails block) of
        Some x \<Rightarrow> x
      | None \<Rightarrow>
          (case first_some after_start (tails block) of
             Some x \<Rightarrow> x
           | None \<Rightarrow> []))"

text \<open>A block with a section between its markers, one without an end marker, and two
  blocks whose markers do not stand at the ends of lines.\<close>

definition block_with_section :: string where
  "block_with_section =
     ''App one'' @ LF # ''daily data '' @ LF # ''2025-01-01 5'' @ LF # '' Hourly Data'' @ LF # ''0 1''"

definition block_without_end :: string where
  "block_without_end = ''Daily Data'' @ LF # ''2025-01-01 5'' @ LF # ''2025-01-02 6''"

definition block_start_in_line :: string where
  "block_start_in_line = ''Daily Data 1'' @ LF # ''Hourly Data''"

definition block_end_in_line :: string where
  "block_end_in_line = ''Daily Data'' @ LF # ''abc Hourly Data''"

section \<open>Properties of the observations\<close>

lemma set_ivt_values: "set (ivt_values df) = {v. Some v \<in> IVT ` set df}"
  by (induction df) (auto simp: ivt_values_def split: option.splits)

lemma set_ivt_dropna: "set (ivt_values (dropna_IVT rows)) = {v. Some v \<in> IVT ` set rows}"
proof -
  have "IVT ` set (dropna_IVT rows) = IVT ` set rows - {None}"
    by (auto simp: dropna_IVT_def)
  then show ?thesis by (auto simp: set_ivt_values)
qed

lemma dropna_empty_iff: "dropna_IVT rows = [] \<longleftrightarrow> (\<forall>r \<in> set rows. IVT r = None)"
  by (auto simp: dropna_IVT_def filter_empty_conv)

text \<open>
  C8. An application gets an observation exactly when it has at least one metric. In
  every observation the note about high values is written exactly when some metric is
  above 0.5, and the note about zeros exactly when every metric is zero. So an
  application with a metric above 0.5 gets an observation with the note about high
  values, and an application that has metrics, all of them zero, gets an observation
  with the note about zeros and without the note about high values. For the metrics
  0.1, 0.6, 0.2 the first note is written; for 0.0, 0.0 the second one is and the first
  is not.
\<close>

theorem observe_flags:
  "(observe rows = None \<longleftrightarrow> (\<forall>r \<in> set rows. IVT r = None))
   \<and> ((\<exists>v. Some v \<in> IVT ` set rows \<and> v > 1 / 2) \<longrightarrow>
      (\<exists>ob. observe rows = Some ob \<and> note_high ob))
   \<and> ((\<exists>v. Some v \<in> IVT ` set rows) \<and> (\<forall>v. Some v \<in> IVT ` set rows \<longrightarrow> v = 0) \<longrightarrow>
      (\<exists>ob. observe rows = Some ob \<and> note_all_zero ob \<and> \<not> note_high ob))
   \<and> (\<forall>ob. observe rows = Some ob \<longrightarrow>
         (note_high ob \<longleftrightarrow> (\<exists>v. Some v \<in> IVT ` set rows \<and> v > 1 / 2))
       \<and> (note_all_zero ob \<longleftrightarrow> (\<forall>v. Some v \<in> IVT ` set rows \<longrightarrow> v = 0)))
   \<and> (\<forall>rows3. map IVT rows3 = [Some (1 / 10), Some (6 / 10), Some (2 / 10)] \<longrightarrow>
         (\<exists>ob. observe rows3 = Some ob \<and> note_high ob))
   \<and> (\<forall>rows2. map IVT rows2 = [Some 0, Some 0] \<longrightarrow>
         (\<exists>ob. observe rows2 = Some ob \<and> note_all_zero ob \<and> \<not> note_high ob))"
proof -
  have flags: "note_high ob \<longleftrightarrow> (\<exists>v. Some v \<in> IVT ` set rs \<and> v > 1 / 2)"
       "note_all_zero ob \<longleftrightarrow> (\<forall>v. Some v \<in> IVT ` set rs \<longrightarrow> v = 0)"
    if "observe rs = Some ob" for rs ob
  proof -
    from that have "note_high ob = list_ex (\<lambda>v. v > 1 / 2) (ivt_values (dropna_IVT rs))"
      "note_all_zero ob = list_all (\<lambda>v. v = 0) (ivt_values (dropna_IVT rs))"
      by (simp_all add: observe_def Let_def split: if_splits) (auto simp: list_ex_iff)
    then show "note_high ob \<longleftrightarrow> (\<exists>v. Some v \<in> IVT ` set rs \<and> v > 1 / 2)"
       "note_all_zero ob \<longleftrightarrow> (\<forall>v. Some v \<in> IVT ` set rs \<longrightarrow> v = 0)"
      unfolding list_ex_iff list_all_iff set_ivt_dropna by blast+
  qed
  have ex: "\<exists>ob. observe rs = Some ob" if "Some v \<in> IVT ` set rs" for rs v
  proof -
    from that have "dropna_IVT rs \<noteq> []"
      by (auto simp: dropna_empty_iff) (metis option.distinct(1))
    then show ?thesis by (simp add: observe_def Let_def)
  qed
  have e: "observe rows = None \<longleftrightarrow> (\<forall>r \<in> set rows. IVT r = None)"
    unfolding dropna_empty_iff [symmetric] by (simp add: observe_def Let_def)
  have a: "(\<exists>v. Some v \<in> IVT ` set rows \<and> v > 1 / 2) \<longrightarrow>
      (\<exists>ob. observe rows = Some ob \<and> note_high ob)"
    using ex flags(1) by blast
  have z: "(\<exists>v. Some v \<in> IVT ` set rows) \<and> (\<forall>v. Some v \<in> IVT ` set rows \<longrightarrow> v = 0) \<longrightarrow>
      (\<exists>ob. observe rows = Some ob \<and> note_all_zero ob \<and> \<not> note_high ob)"
  proof
    assume h: "(\<exists>v. Some v \<in> IVT ` set rows) \<and> (\<forall>v. Some v \<in> IVT ` set rows \<longrightarrow> v = 0)"
    then obtain ob where o: "observe rows = Some ob" using ex by blast
    from h have "\<not> (\<exists>v. Some v \<in> IVT ` set rows \<and> v > 1 / 2)" by auto
    with h flags [OF o] o show "\<exists>ob. observe rows = Some ob \<and> note_all_zero ob \<and> \<not> note_high ob"
      by blast
  qed
  have b: "\<exists>ob. observe rs = Some ob \<and> note_high ob"
    if "map IVT rs = [Some (1 / 10), Some (6 / 10), Some (2 / 10)]" for rs
  proof -
    from that have s: "IVT ` set rs = {Some (1 / 10), Some (6 / 10), Some (2 / 10)}"
      by (metis list.set(1) list.set(2) set_map)
    then obtain ob where o: "observe rs = Some ob" using ex[of "6/10" rs] by auto
    have "(6 / 10 :: rat) > 1 / 2" by simp
    with s have "\<exists>v. Some v \<in> IVT ` set rs \<and> v > 1 / 2" by blast
    with o flags(1) show ?thesis by blast
  qed
  have c: "\<exists>ob. observe rs = Some ob \<and> note_all_zero ob \<and> \<not> note_high ob"
    if "map IVT rs = [Some 0, Some 0]" for rs
  proof -
    from that have s: "IVT ` set rs = {Some 0}"
      by (metis list.set(1) list.set(2) set_map insert_absorb2)
    then obtain ob where o: "observe rs = Some ob" using ex[of 0 rs] by auto
    from s o flags[OF o] show ?thesis by auto
  qed
  have f: "\<forall>ob. observe rows = Some ob \<longrightarrow>
         (note_high ob \<longleftrightarrow> (\<exists>v. Some v \<in> IVT ` set rows \<and> v > 1 / 2))
       \<and> (note_all_zero ob \<longleftrightarrow> (\<forall>v. Some v \<in> IVT ` set rows \<longrightarrow> v = 0))"
    using flags [of rows] by (intro allI impI conjI)
  have b': "\<forall>rows3. map IVT rows3 = [Some (1 / 10), Some (6 / 10), Some (2 / 10)] \<longrightarrow>
         (\<exists>ob. observe rows3 = Some ob \<and> note_high ob)"
    using b by (intro allI impI)
  have c': "\<forall>rows2. map IVT rows2 = [Some 0, Some 0] \<longrightarrow>
         (\<exists>ob. observe rows2 = Some ob \<and> note_all_zero ob \<and> \<not> note_high ob)"
    using c by (intro allI impI)
  from e a z f b' c' show ?thesis by (intro conjI)
qed

lemma example_high_metric:
  "\<exists>v. Some v \<in> IVT ` set (metric_rows [1 / 10, 6 / 10, 2 / 10]) \<and> v > 1 / 2"
proof -
  have "Some (6 / 10) \<in> IVT ` set (metric_rows [1 / 10, 6 / 10, 2 / 10])"
    by (simp add: metric_rows_def)
  moreover have "(6 / 10 :: rat) > 1 / 2" by simp
  ultimately show ?thesis by blast
qed

lemma example_zero_metrics:
  "(\<exists>v. Some v \<in> IVT ` set (metric_rows [0, 0, 0]))
   \<and> (\<forall>v. Some v \<in> IVT ` set (metric_rows [0, 0, 0]) \<longrightarrow> v = 0)"
  by (auto simp: metric_rows_def)

lemma example_no_metric:
  "\<forall>r \<in> set [\<lparr>date_raw = ''x'', date_parsed = None, rest = ''y'', IVT = None\<rparr>]. IVT r = None"
  by simp

theorem observe_flags_witness:
  "(\<exists>ob. observe (metric_rows [1 / 10, 6 / 10, 2 / 10]) = Some ob \<and> note_high ob)
   \<and> (\<exists>ob. observe (metric_rows [0, 0, 0]) = Some ob \<and> note_all_zero ob \<and> \<not> note_high ob)
   \<and> observe [\<lparr>date_raw = ''x'', date_parsed = None, rest = ''y'', IVT = None\<rparr>] = None
   \<and> (\<exists>ob. observe (metric_rows [0, 0]) = Some ob \<and> note_all_zero ob \<and> \<not> note_high ob)"
proof -
  have 2: "map IVT (metric_rows [0, 0]) = [Some 0, Some 0]"
    by (simp add: metric_rows_def)
  note a = observe_flags [of "metric_rows [1 / 10, 6 / 10, 2 / 10]",
      THEN conjunct2, THEN conjunct1, THEN mp, OF example_high_metric]
  note z = observe_flags [of "metric_rows [0, 0, 0]",
      THEN conjunct2, THEN conjunct2, THEN conjunct1, THEN mp, OF example_zero_metrics]
  note e = observe_flags [of "[\<lparr>date_raw = ''x'', date_parsed = None, rest = ''y'', IVT = None\<rparr>]",
      THEN conjunct1, THEN iffD2, OF example_no_metric]
  note c = observe_flags [of "[]", THEN conjunct2, THEN conjunct2, THEN conjunct2,
      THEN conjunct2, THEN conjunct2, rule_format, OF 2]
  from a z e c show ?thesis by (intro conjI)
qed

section \<open>Properties of the combined series\<close>

lemma dated_values_dropna: "dated_values (dropna_IVT rows) = dated_values rows"
  by (induction rows) (auto simp: dated_values_def dropna_IVT_def split: option.splits)

lemma mem_dated_values:
  "(d, v) \<in> set (dated_values rows) \<longleftrightarrow>
     (\<exists>r \<in> set rows. date_parsed r = Some d \<and> IVT r = Some v)"
proof (cases d)
  case (fields y m dd)
  show ?thesis unfolding fields
    by (induction rows) (auto simp: dated_values_def split: option.splits)
qed

lemma fst_dated_values: "fst ` set (dated_values rows) = dates_of rows"
proof (rule set_eqI)
  fix d
  have "d \<in> fst ` set (dated_values rows) \<longleftrightarrow> (\<exists>v. (d, v) \<in> set (dated_values rows))"
    by force
  also have "\<dots> \<longleftrightarrow> (\<exists>r \<in> set rows. date_parsed r = Some d \<and> IVT r \<noteq> None)"
    unfolding mem_dated_values by auto
  finally show "d \<in> fst ` set (dated_values rows) \<longleftrightarrow> d \<in> dates_of rows"
    by (simp add: dates_of_def)
qed

lemma values_on_dated:
  "map snd (filter (\<lambda>(d', v). d' = d) (dated_values rows)) = values_on d rows"
  by (induction rows) (auto simp: dated_values_def values_on_def split: option.splits)

lemma values_on_empty: "values_on d rows = [] \<longleftrightarrow> d \<notin> dates_of rows"
  by (induction rows) (auto simp: values_on_def dates_of_def split: option.splits)

lemma map_of_groupby: "map_of (groupby_mean (dated_values rows)) d = cell rows d"
proof -
  have "map_of (groupby_mean (dated_values rows)) d =
      (if d \<in> dates_of rows then Some (mean (values_on d rows)) else None)"
    unfolding groupby_mean_def
    by (simp add: map_of_map_restrict restrict_map_def values_on_dated fst_dated_values)
  then show ?thesis by (simp add: cell_def values_on_empty)
qed

lemma keys_groupby: "fst ` set (groupby_mean (dated_values rows)) = dates_of rows"
  unfolding groupby_mean_def by (simp add: image_image fst_dated_values)

lemma has_dated_iff: "has_dated rows \<longleftrightarrow> dates_of rows \<noteq> {}"
  unfolding has_dated_def dates_of_def by (simp add: ex_in_conv [symmetric]) blast

lemma app_frame_eq:
  "app_frame i rows =
     (if has_dated rows then Some (i, groupby_mean (dated_values rows)) else None)"
proof -
  have 1: "filter (\<lambda>r. date_parsed r \<noteq> None) (dropna_IVT rows) \<noteq> [] \<longleftrightarrow> has_dated rows"
    by (auto simp: dropna_IVT_def has_dated_def filter_empty_conv)
  have 2: "has_dated rows \<Longrightarrow> dropna_IVT rows \<noteq> []"
    by (auto simp: dropna_IVT_def has_dated_def filter_empty_conv)
  show ?thesis
    using 1 2 by (auto simp: app_frame_def Let_def dated_values_dropna)
qed

lemma frames_eq:
  "concat (map (\<lambda>(i, rows). case app_frame i rows of None \<Rightarrow> [] | Some f \<Rightarrow> [f]) ps) =
   map (\<lambda>(i, rows). (i, groupby_mean (dated_values rows)))
       (filter (\<lambda>(i, rows). has_dated rows) ps)"
  by (induction ps) (auto simp: app_frame_eq)


lemma map_of_groupby_fun: "map_of (groupby_mean (dated_values rows)) = cell rows"
  by (rule ext) (rule map_of_groupby)

lemma snd_numbered: "snd ` set (zip [1 ..< Suc (length apps)] apps) = set apps"
proof -
  have "map snd (zip [1 ..< Suc (length apps)] apps) = apps"
    by (rule map_snd_zip) (simp del: upt_Suc)
  then have "set (map snd (zip [1 ..< Suc (length apps)] apps)) = set apps" by simp
  then show ?thesis by simp
qed

lemma no_frames_iff:
  "combined_date_frames apps = [] \<longleftrightarrow> (\<forall>rows \<in> set apps. \<not> has_dated rows)"
proof -
  let ?zs = "zip [1 ..< Suc (length apps)] apps"
  have "combined_date_frames apps = [] \<longleftrightarrow> (\<forall>z \<in> set ?zs. \<not> has_dated (snd z))"
    unfolding combined_date_frames_def frames_eq
    by (auto simp: filter_empty_conv)
  also have "\<dots> \<longleftrightarrow> (\<forall>rows \<in> snd ` set ?zs. \<not> has_dated rows)" by blast
  finally show ?thesis unfolding snd_numbered .
qed

lemma frames_dates:
  "(\<Union>(i, f) \<in> set (combined_date_frames apps). fst ` set f) = (\<Union>rows \<in> set apps. dates_of rows)"
proof -
  let ?zs = "zip [1 ..< Suc (length apps)] apps"
  have "(\<Union>(i, f) \<in> set (combined_date_frames apps). fst ` set f) =
        (\<Union>z \<in> {z \<in> set ?zs. has_dated (snd z)}. dates_of (snd z))"
    unfolding combined_date_frames_def frames_eq
    by (auto simp: keys_groupby case_prod_beta)
  also have "\<dots> = (\<Union>z \<in> set ?zs. dates_of (snd z))"
    by (auto simp: has_dated_iff)
  also have "\<dots> = (\<Union>rows \<in> snd ` set ?zs. dates_of rows)" by blast
  finally show ?thesis unfolding snd_numbered .
qed

lemma index_concat_frames:
  "set (index (concat_frames frames)) = (\<Union>(i, f) \<in> set frames. fst ` set f)"
  "sorted (index (concat_frames frames))" "distinct (index (concat_frames frames))"
  by (auto simp: concat_frames_def Let_def case_prod_beta)

lemma columns_concat_frames:
  "columns (concat_frames (combined_date_frames apps)) =
   map (\<lambda>(i, rows). (i, map (cell rows) (index (concat_frames (combined_date_frames apps)))))
       (filter (\<lambda>(i, rows). has_dated rows) (zip [1 ..< Suc (length apps)] apps))"
  unfolding combined_date_frames_def frames_eq
  by (simp add: concat_frames_def Let_def case_prod_beta comp_def map_of_groupby_fun)


text \<open>
  C2. There is a combined series exactly when some application has a record with both a
  parsed date and a metric. Its columns are those of exactly the applications with such a
  record, in the order of the applications; its index is the ascending list, without
  repetition, of all the dates of such records; the cell of an application on a date is
  the average of its metrics on that date, and empty where it has none. Applications
  without a dated record are left out.
\<close>

theorem combined_series_spec:
  "(combined_series apps = None \<longleftrightarrow> (\<forall>rows \<in> set apps. \<not> has_dated rows))
   \<and> (\<forall>m. combined_series apps = Some m \<longrightarrow>
         sorted (index m) \<and> distinct (index m)
       \<and> set (index m) = (\<Union>rows \<in> set apps. dates_of rows)
       \<and> columns m =
           map (\<lambda>(i, rows). (i, map (cell rows) (index m)))
               (filter (\<lambda>(i, rows). has_dated rows) (zip [1 ..< Suc (length apps)] apps)))"
proof (intro conjI allI impI)
  show "combined_series apps = None \<longleftrightarrow> (\<forall>rows \<in> set apps. \<not> has_dated rows)"
    unfolding no_frames_iff [symmetric] by (simp add: combined_series_def Let_def)
next
  fix m assume "combined_series apps = Some m"
  then have m: "m = concat_frames (combined_date_frames apps)"
    by (simp add: combined_series_def Let_def split: if_splits)
  show "sorted (index m)" "distinct (index m)"
    unfolding m by (rule index_concat_frames)+
  show "set (index m) = (\<Union>rows \<in> set apps. dates_of rows)"
    unfolding m index_concat_frames(1) by (rule frames_dates)
  show "columns m =
           map (\<lambda>(i, rows). (i, map (cell rows) (index m)))
               (filter (\<lambda>(i, rows). has_dated rows) (zip [1 ..< Suc (length apps)] apps))"
    unfolding m by (rule columns_concat_frames)
qed

lemma example_combined: "combined_series example_apps = Some example_merged"
  by code_simp

theorem combined_series_spec_witness:
  "combined_series example_apps = Some example_merged
   \<and> sorted (index example_merged) \<and> distinct (index example_merged)
   \<and> set (index example_merged) = (\<Union>rows \<in> set example_apps. dates_of rows)
   \<and> columns example_merged =
       map (\<lambda>(i, rows). (i, map (cell rows) (index example_merged)))
           (filter (\<lambda>(i, rows). has_dated rows)
                   (zip [1 ..< Suc (length example_apps)] example_apps))"
  using combined_series_spec [of example_apps, THEN conjunct2, rule_format, OF example_combined]
    example_combined by (intro conjI) (elim conjE, assumption)+

section \<open>Properties of the matcher\<close>

lemma prev_after_Nil [simp]: "prev_after p [] = p"
  by (simp add: prev_after_def)

lemma prev_after_Cons [simp]: "prev_after p (c # w) = prev_after (Some c) w"
  by (simp add: prev_after_def)

lemma prev_after_append [simp]: "prev_after p (u @ w) = prev_after (prev_after p u) w"
  by (simp add: prev_after_def)

lemma star_greedy_mem:
  "(p', s') \<in> set (star_greedy P p s) \<longleftrightarrow>
     (\<exists>w. s = w @ s' \<and> list_all P w \<and> p' = prev_after p w)"
proof (induction s arbitrary: p)
  case Nil
  then show ?case by auto
next
  case (Cons c cs)
  show ?case
  proof
    assume "(p', s') \<in> set (star_greedy P p (c # cs))"
    then consider "P c" "(p', s') \<in> set (star_greedy P (Some c) cs)" | "p' = p" "s' = c # cs"
      by (auto split: if_splits)
    then show "\<exists>w. c # cs = w @ s' \<and> list_all P w \<and> p' = prev_after p w"
    proof cases
      case 1
      then obtain w where "cs = w @ s'" "list_all P w" "p' = prev_after (Some c) w"
        using Cons.IH by blast
      with 1 show ?thesis by (intro exI [of _ "c # w"]) simp
    next
      case 2
      then show ?thesis by (intro exI [of _ "[]"]) simp
    qed
  next
    assume "\<exists>w. c # cs = w @ s' \<and> list_all P w \<and> p' = prev_after p w"
    then obtain w where w: "c # cs = w @ s'" "list_all P w" "p' = prev_after p w" by blast
    show "(p', s') \<in> set (star_greedy P p (c # cs))"
    proof (cases w)
      case Nil
      with w have "s' = c # cs" "p' = p" by simp_all
      then show ?thesis by simp
    next
      case (Cons d w')
      with w have "d = c" "cs = w' @ s'" "P c" "list_all P w'" "p' = prev_after (Some c) w'"
        by auto
      then show ?thesis using Cons.IH [of "Some c"] by auto
    qed
  qed
qed

lemma star_lazy_set: "set (star_lazy P p s) = set (star_greedy P p s)"
  by (induction s arbitrary: p) auto

lemma run_Chr_mem:
  "(p', s', g') \<in> set (run (Chr P) (p, s, g)) \<longleftrightarrow> (\<exists>c. s = c # s' \<and> P c \<and> p' = Some c \<and> g' = g)"
  by (cases s) auto

lemma run_Seq_mem:
  "st'' \<in> set (run (Seq a b) st) \<longleftrightarrow>
     (\<exists>p' s' g'. (p', s', g') \<in> set (run a st) \<and> st'' \<in> set (run b (p', s', g')))"
  by auto

lemma run_Star_mem:
  "(p', s', g') \<in> set (run (Star P) (p, s, g)) \<longleftrightarrow>
     (\<exists>w. s = w @ s' \<and> list_all P w \<and> p' = prev_after p w \<and> g' = g)"
proof -
  have "(p', s', g') \<in> set (run (Star P) (p, s, g)) \<longleftrightarrow>
        (p', s') \<in> set (star_greedy P p s) \<and> g' = g"
    by force
  then show ?thesis unfolding star_greedy_mem by blast
qed

lemma run_Lazy_mem:
  "(p', s', g') \<in> set (run (Lazy P) (p, s, g)) \<longleftrightarrow>
     (\<exists>w. s = w @ s' \<and> list_all P w \<and> p' = prev_after p w \<and> g' = g)"
proof -
  have "(p', s', g') \<in> set (run (Lazy P) (p, s, g)) \<longleftrightarrow>
        (p', s') \<in> set (star_lazy P p s) \<and> g' = g"
    by force
  then show ?thesis unfolding star_lazy_set star_greedy_mem by blast
qed

lemma run_Opt_mem:
  "st' \<in> set (run (Opt a) st) \<longleftrightarrow> st' \<in> set (run a st) \<or> st' = st"
  by auto

lemma run_plus_mem:
  "(p', s', g') \<in> set (run (plus P) (p, s, g)) \<longleftrightarrow>
     (\<exists>w. w \<noteq> [] \<and> s = w @ s' \<and> list_all P w \<and> p' = prev_after p w \<and> g' = g)"
proof
  assume "(p', s', g') \<in> set (run (plus P) (p, s, g))"
  then obtain c s1 w where "s = c # s1" "P c" "s1 = w @ s'" "list_all P w"
    "p' = prev_after (Some c) w" "g' = g"
    unfolding plus_def run_Seq_mem
    by (auto simp: run_Chr_mem run_Star_mem simp del: run.simps)
  then show "\<exists>w. w \<noteq> [] \<and> s = w @ s' \<and> list_all P w \<and> p' = prev_after p w \<and> g' = g"
    by (intro exI [of _ "c # w"]) simp
next
  assume "\<exists>w. w \<noteq> [] \<and> s = w @ s' \<and> list_all P w \<and> p' = prev_after p w \<and> g' = g"
  then obtain c w where "s = (c # w) @ s'" "list_all P (c # w)" "p' = prev_after p (c # w)" "g' = g"
    by (metis neq_Nil_conv)
  then have "(Some c, w @ s', g) \<in> set (run (Chr P) (p, s, g))"
    "(p', s', g') \<in> set (run (Star P) (Some c, w @ s', g))"
    by (auto simp: run_Chr_mem run_Star_mem simp del: run.simps)
  then show "(p', s', g') \<in> set (run (plus P) (p, s, g))"
    unfolding plus_def run_Seq_mem by blast
qed

section \<open>Properties of the numeric scan\<close>

lemma run_Grp_mem:
  "(p', s', g'') \<in> set (run (Grp n a) (p, s, g)) \<longleftrightarrow>
     (\<exists>g'. (p', s', g') \<in> set (run a (p, s, g)) \<and> g'' = (n, take (length s - length s') s) # g')"
  by force

lemma run_ch_mem:
  "(p', s', g') \<in> set (run (ch x) (p, s, g)) \<longleftrightarrow> (s = x # s' \<and> p' = Some x \<and> g' = g)"
  unfolding ch_def run_Chr_mem by auto

lemma run_Bol_mem:
  "st' \<in> set (run Bol (p, s, g)) \<longleftrightarrow> (p = None \<and> st' = (p, s, g))"
  by auto

lemma run_Eol_mem:
  "st' \<in> set (run Eol (p, s, g)) \<longleftrightarrow> ((s = [] \<or> s = [LF]) \<and> st' = (p, s, g))"
  by auto

lemma re_match_Some_iff: "re_match r s \<noteq> None \<longleftrightarrow> (\<exists>st. st \<in> set (run r (None, s, [])))"
proof (cases "run r (None, s, [])")
  case Nil
  then show ?thesis by (simp add: re_match_def)
next
  case (Cons st sts)
  then have "re_match r s \<noteq> None" by (simp add: re_match_def split: prod.splits)
  moreover from Cons have "st \<in> set (run r (None, s, []))" by simp
  ultimately show ?thesis by blast
qed

lemma numeric_accepts:
  "re_match rx_numeric t \<noteq> None \<longleftrightarrow>
     (\<exists>sg ds fr e. t = sg @ ds @ fr @ e \<and> literal_shape sg ds fr \<and> (e = [] \<or> e = [LF]))"
    (is "?L \<longleftrightarrow> ?R")
proof
  assume ?L
  then have "\<exists>st. st \<in> set (run rx_numeric (None, t, []))"
    unfolding re_match_Some_iff .
  then obtain st where "st \<in> set (run rx_numeric (None, t, []))" ..
  then obtain p1 s1 g1 p2 s2 g2 p3 s3 g3 where
    1: "(p1, s1, g1) \<in> set (run (Opt (ch CHR ''-'')) (None, t, []))" and
    2: "(p2, s2, g2) \<in> set (run (plus is_digit) (p1, s1, g1))" and
    3: "(p3, s3, g3) \<in> set (run (Opt (Grp 1 (Seq (ch CHR ''.'') (plus is_digit)))) (p2, s2, g2))" and
    4: "s3 = [] \<or> s3 = [LF]"
    unfolding rx_numeric_def seqs.simps run_Seq_mem
    by (auto simp: run_Eol_mem run_Bol_mem simp del: run.simps One_nat_def)
  from 1 obtain sg where sg: "t = sg @ s1" "sg = [] \<or> sg = ''-''"
    unfolding run_Opt_mem run_ch_mem by auto
  from 2 obtain ds where ds: "s1 = ds @ s2" "ds \<noteq> []" "list_all is_digit ds"
    unfolding run_plus_mem by auto
  from 3 obtain fr where fr: "s2 = fr @ s3"
    "fr = [] \<or> (\<exists>fs. fr = CHR ''.'' # fs \<and> fs \<noteq> [] \<and> list_all is_digit fs)"
    unfolding run_Opt_mem run_Grp_mem run_Seq_mem
    by (auto simp: run_ch_mem run_plus_mem simp del: run.simps One_nat_def)
  from sg ds fr 4 show ?R
    unfolding literal_shape_def by (intro exI [of _ sg] exI [of _ ds] exI [of _ fr] exI [of _ s3]) simp
next
  assume ?R
  then obtain sg ds fr e where t: "t = sg @ ds @ fr @ e" and sh: "literal_shape sg ds fr"
    and e: "e = [] \<or> e = [LF]" by blast
  from sh have 1: "(prev_after None sg, ds @ fr @ e, []) \<in> set (run (Opt (ch CHR ''-'')) (None, t, []))"
    unfolding run_Opt_mem run_ch_mem t literal_shape_def by auto
  from sh have 2: "(prev_after (prev_after None sg) ds, fr @ e, []) \<in>
      set (run (plus is_digit) (prev_after None sg, ds @ fr @ e, []))"
    unfolding run_plus_mem literal_shape_def by auto
  from sh have 3: "\<exists>g3. (prev_after (prev_after (prev_after None sg) ds) fr, e, g3) \<in>
      set (run (Opt (Grp 1 (Seq (ch CHR ''.'') (plus is_digit))))
               (prev_after (prev_after None sg) ds, fr @ e, []))"
    unfolding run_Opt_mem run_Grp_mem run_Seq_mem literal_shape_def
    by (auto simp: run_ch_mem run_plus_mem simp del: run.simps One_nat_def)
  from 3 obtain g3 where 3: "(prev_after (prev_after (prev_after None sg) ds) fr, e, g3) \<in>
      set (run (Opt (Grp 1 (Seq (ch CHR ''.'') (plus is_digit))))
               (prev_after (prev_after None sg) ds, fr @ e, []))" ..
  from e have 4: "(prev_after (prev_after (prev_after None sg) ds) fr, e, g3) \<in>
      set (run Eol (prev_after (prev_after (prev_after None sg) ds) fr, e, g3))"
    unfolding run_Eol_mem by simp
  have 0: "(None, t, []) \<in> set (run Bol (None, t, []))"
    unfolding run_Bol_mem by simp
  from 0 1 2 3 4 have "\<exists>st. st \<in> set (run rx_numeric (None, t, []))"
    unfolding rx_numeric_def seqs.simps run_Seq_mem by blast
  then show ?L unfolding re_match_Some_iff .
qed

lemma char_facts:
  "\<not> is_digit CHR ''-''" "\<not> is_digit CHR ''.''" "\<not> is_digit LF"
  "\<not> is_space CHR ''-''" "\<not> is_space CHR ''.''" "is_space LF"
  "CHR ''-'' \<noteq> LF" "CHR ''.'' \<noteq> LF" "CHR ''-'' \<noteq> CHR ''+''"
  by (simp_all add: is_digit_def is_space_def code_def LF_def)

lemma digit_not_space: "is_digit c \<Longrightarrow> \<not> is_space c"
  by (auto simp: is_digit_def is_space_def)

lemma digit_neq: "is_digit c \<Longrightarrow> c \<noteq> CHR ''-'' \<and> c \<noteq> CHR ''.'' \<and> c \<noteq> LF \<and> c \<noteq> CHR ''+''"
  by (auto simp: is_digit_def code_def LF_def)

lemma takeWhile_digits:
  "list_all is_digit ds \<Longrightarrow> fr = [] \<or> \<not> is_digit (hd fr) \<Longrightarrow>
     takeWhile is_digit (ds @ fr) = ds \<and> dropWhile is_digit (ds @ fr) = fr"
proof (induction ds)
  case Nil
  then show ?case by (cases fr) auto
next
  case (Cons d ds)
  then show ?case by simp
qed

lemma numeric_literal_iff:
  "numeric_literal u \<longleftrightarrow> (\<exists>sg ds fr. u = sg @ ds @ fr \<and> literal_shape sg ds fr)"
    (is "?L \<longleftrightarrow> ?R")
proof
  assume ?L
  define v where "v = (case u of [] \<Rightarrow> [] | c # cs \<Rightarrow> if c = CHR ''-'' then cs else u)"
  define sg where "sg = (case u of [] \<Rightarrow> [] | c # cs \<Rightarrow> if c = CHR ''-'' then ''-'' else [])"
  have u: "u = sg @ v" and sg: "sg = [] \<or> sg = ''-''"
    by (auto simp: v_def sg_def split: list.splits)
  let ?ip = "takeWhile is_digit v" and ?r = "dropWhile is_digit v"
  from \<open>?L\<close> have ip: "?ip \<noteq> []"
    and r: "?r = [] \<or> (hd ?r = CHR ''.'' \<and> tl ?r \<noteq> [] \<and> list_all is_digit (tl ?r))"
    unfolding numeric_literal_def Let_def v_def by blast+
  have "list_all is_digit ?ip" by (simp add: list_all_iff) (meson set_takeWhileD)
  moreover from r have "?r = [] \<or> (\<exists>fs. ?r = CHR ''.'' # fs \<and> fs \<noteq> [] \<and> list_all is_digit fs)"
    by (cases ?r) auto
  ultimately have "literal_shape sg ?ip ?r"
    using sg ip unfolding literal_shape_def by blast
  moreover have "u = sg @ ?ip @ ?r" using u by simp
  ultimately show ?R by blast
next
  assume ?R
  then obtain sg ds fr where u: "u = sg @ ds @ fr" and sh: "literal_shape sg ds fr" by blast
  from sh obtain d ds' where ds: "ds = d # ds'" "is_digit d" "list_all is_digit ds'"
    unfolding literal_shape_def by (cases ds) auto
  from sh have fr: "fr = [] \<or> \<not> is_digit (hd fr)"
    unfolding literal_shape_def by (auto simp: char_facts)
  from sh have "list_all is_digit ds" unfolding literal_shape_def by simp
  from takeWhile_digits [OF this fr]
  have tw: "takeWhile is_digit (ds @ fr) = ds" "dropWhile is_digit (ds @ fr) = fr" by simp_all
  from sh have "sg = [] \<or> sg = ''-''" unfolding literal_shape_def by simp
  then have v: "(case u of [] \<Rightarrow> [] | c # cs \<Rightarrow> if c = CHR ''-'' then cs else u) = ds @ fr"
    using u ds digit_neq [of d] by auto
  from sh have "fr = [] \<or> (hd fr = CHR ''.'' \<and> tl fr \<noteq> [] \<and> list_all is_digit (tl fr))"
    unfolding literal_shape_def by auto
  with ds show ?L
    unfolding numeric_literal_def Let_def v tw by simp
qed


lemma shape_last_digit:
  assumes "literal_shape sg ds fr"
  shows "sg @ ds @ fr \<noteq> []" "is_digit (last (sg @ ds @ fr))"
    "\<not> is_space (hd (sg @ ds @ fr))"
proof -
  from assms obtain d ds' where ds: "ds = d # ds'" "is_digit d" "list_all is_digit ds'"
    unfolding literal_shape_def by (cases ds) auto
  show "sg @ ds @ fr \<noteq> []" using ds by simp
  have "is_digit (last ds)" using ds by (auto simp: list_all_iff)
  moreover have "is_digit (last fs)" if "fs \<noteq> []" "list_all is_digit fs" for fs
    using that by (auto simp: list_all_iff)
  ultimately show "is_digit (last (sg @ ds @ fr))"
    using assms ds unfolding literal_shape_def by auto
  show "\<not> is_space (hd (sg @ ds @ fr))"
    using assms ds digit_not_space [of d] unfolding literal_shape_def
    by (auto simp: char_facts)
qed

lemma chomp_shape:
  assumes "literal_shape sg ds fr" "e = [] \<or> e = [LF]"
  shows "chomp (sg @ ds @ fr @ e) = sg @ ds @ fr"
proof -
  let ?w = "sg @ ds @ fr"
  from shape_last_digit [OF assms(1)] have w: "?w \<noteq> []" "last ?w \<noteq> LF"
    using digit_neq by blast+
  from assms(2) show ?thesis
  proof
    assume "e = []" with w show ?thesis by (simp add: chomp_def)
  next
    assume "e = [LF]"
    then have "chomp (?w @ e) = ?w" by (simp add: chomp_def butlast_append)
    then show ?thesis by simp
  qed
qed

lemma accepts_iff_literal: "re_match rx_numeric t \<noteq> None \<longleftrightarrow> numeric_literal (chomp t)"
proof
  assume "re_match rx_numeric t \<noteq> None"
  then obtain sg ds fr e where "t = sg @ ds @ fr @ e" "literal_shape sg ds fr" "e = [] \<or> e = [LF]"
    unfolding numeric_accepts by blast
  then show "numeric_literal (chomp t)"
    using chomp_shape numeric_literal_iff by auto
next
  assume "numeric_literal (chomp t)"
  then obtain sg ds fr where c: "chomp t = sg @ ds @ fr" and sh: "literal_shape sg ds fr"
    unfolding numeric_literal_iff by blast
  have "t = chomp t \<or> t = chomp t @ [LF]"
    by (auto simp: chomp_def) (metis append_butlast_last_id)
  then have "\<exists>e. t = sg @ ds @ fr @ e \<and> (e = [] \<or> e = [LF])"
    unfolding c by auto
  with sh show "re_match rx_numeric t \<noteq> None"
    unfolding numeric_accepts by blast
qed

lemma strip_shape:
  assumes "w \<noteq> []" "\<not> is_space (hd w)" "\<not> is_space (last w)" "e = [] \<or> e = [LF]"
  shows "strip (w @ e) = w"
proof -
  from assms obtain c w' where w: "w = c # w'" by (cases w) auto
  obtain l w'' where w2: "w = w'' @ [l]" using assms(1) by (metis append_butlast_last_id)
  from assms w have 1: "dropWhile is_space (w @ e) = w @ e" by simp
  from assms w2 have l: "\<not> is_space l" by simp
  from assms(4) have "dropWhile is_space (rev (w @ e)) = rev w"
    unfolding w2 using l by (auto simp: char_facts)
  then show ?thesis unfolding strip_def 1 by simp
qed

lemma unsigned_float_shape:
  assumes "list_all is_digit ds" "ds \<noteq> []"
    "fr = [] \<or> (\<exists>fs. fr = CHR ''.'' # fs \<and> fs \<noteq> [] \<and> list_all is_digit fs)"
  shows "unsigned_float (ds @ fr) =
           Some (of_nat (digits_val ds) + of_nat (digits_val (drop 1 fr)) / 10 ^ length (drop 1 fr))"
proof -
  from assms(3) have "fr = [] \<or> \<not> is_digit (hd fr)" by (auto simp: char_facts)
  from takeWhile_digits [OF assms(1) this]
  have tw: "takeWhile is_digit (ds @ fr) = ds" "dropWhile is_digit (ds @ fr) = fr" by simp_all
  from assms(3) show ?thesis
  proof
    assume fr: "fr = []"
    have "unsigned_float (ds @ fr) = Some (of_nat (digits_val ds))"
      unfolding unsigned_float_def Let_def tw using assms(2) fr by simp
    then show ?thesis using fr by (simp add: digits_val_def)
  next
    assume "\<exists>fs. fr = CHR ''.'' # fs \<and> fs \<noteq> [] \<and> list_all is_digit fs"
    then obtain fs where fs: "fr = CHR ''.'' # fs" "list_all is_digit fs" by blast
    show ?thesis
      unfolding unsigned_float_def Let_def tw using assms(2) fs by simp
  qed
qed

lemma decimal_value_shape:
  assumes "literal_shape sg ds fr"
  shows "decimal_value (sg @ ds @ fr) =
     (if sg = [] then 1 else - 1) *
       (of_nat (digits_val ds) + of_nat (digits_val (drop 1 fr)) / 10 ^ length (drop 1 fr))"
proof -
  from assms obtain d ds' where ds: "ds = d # ds'" "is_digit d" "list_all is_digit ds" "ds \<noteq> []"
    unfolding literal_shape_def by (cases ds) auto
  from assms have fr: "fr = [] \<or> \<not> is_digit (hd fr)"
    unfolding literal_shape_def by (auto simp: char_facts)
  from takeWhile_digits [OF ds(3) fr]
  have tw: "takeWhile is_digit (ds @ fr) = ds" by simp
  from assms have "sg = [] \<or> sg = ''-''" unfolding literal_shape_def by simp
  then show ?thesis
  proof
    assume sg: "sg = []"
    have "hd (ds @ fr) \<noteq> CHR ''-''" using ds digit_neq [of d] by simp
    then show ?thesis using sg ds(4) tw
      by (simp add: decimal_value_def Let_def)
  next
    assume sg: "sg = ''-''"
    then show ?thesis using tw by (simp add: decimal_value_def Let_def)
  qed
qed

lemma py_float_shape:
  assumes "literal_shape sg ds fr" "e = [] \<or> e = [LF]"
  shows "py_float (sg @ ds @ fr @ e) = Some (decimal_value (sg @ ds @ fr))"
proof -
  let ?w = "sg @ ds @ fr"
  from shape_last_digit [OF assms(1)]
  have w: "?w \<noteq> []" "\<not> is_space (hd ?w)" "\<not> is_space (last ?w)"
    using digit_not_space by blast+
  from strip_shape [OF w assms(2)] have st: "strip (sg @ ds @ fr @ e) = ?w" by simp
  from assms(1) obtain d ds' where ds: "ds = d # ds'" "is_digit d" "list_all is_digit ds" "ds \<noteq> []"
    unfolding literal_shape_def by (cases ds) auto
  from assms(1) have fr: "fr = [] \<or> (\<exists>fs. fr = CHR ''.'' # fs \<and> fs \<noteq> [] \<and> list_all is_digit fs)"
    unfolding literal_shape_def by simp
  note uf = unsigned_float_shape [OF ds(3) ds(4) fr]
  note dv = decimal_value_shape [OF assms(1)]
  from assms(1) have "sg = [] \<or> sg = ''-''" unfolding literal_shape_def by simp
  then show ?thesis
  proof
    assume sg: "sg = []"
    have "d \<noteq> CHR ''-''" "d \<noteq> CHR ''+''" using digit_neq [OF ds(2)] by simp_all
    then have "py_float (sg @ ds @ fr @ e) = unsigned_float (ds @ fr)"
      unfolding py_float_def st using sg ds(1) by simp
    then show ?thesis unfolding uf dv using sg by simp
  next
    assume sg: "sg = ''-''"
    then have "py_float (sg @ ds @ fr @ e) = map_option uminus (unsigned_float (ds @ fr))"
      unfolding py_float_def st by simp
    then show ?thesis unfolding uf dv using sg by simp
  qed
qed

lemma py_float_accepted:
  assumes "re_match rx_numeric t \<noteq> None"
  shows "py_float t = Some (decimal_value (chomp t))"
proof -
  from assms obtain sg ds fr e where t: "t = sg @ ds @ fr @ e" and sh: "literal_shape sg ds fr"
    and e: "e = [] \<or> e = [LF]"
    unfolding numeric_accepts by blast
  show ?thesis unfolding t py_float_shape [OF sh e] chomp_shape [OF sh e] ..
qed

lemma numeric_scan_find:
  "numeric_scan ts =
     (case find (\<lambda>t. numeric_literal (chomp t)) ts of
        None \<Rightarrow> None | Some t \<Rightarrow> Some (decimal_value (chomp t)))"
proof (induction ts)
  case Nil
  show ?case by simp
next
  case (Cons t ts)
  show ?case
  proof (cases "numeric_literal (chomp t)")
    case True
    then have m: "re_match rx_numeric t \<noteq> None" unfolding accepts_iff_literal .
    show ?thesis using True m py_float_accepted [OF m] by simp
  next
    case False
    then have m: "\<not> re_match rx_numeric t \<noteq> None" unfolding accepts_iff_literal .
    show ?thesis using False m Cons.IH by simp
  qed
qed


lemma chomp_id:
  assumes "LF \<notin> set t"
  shows "chomp t = t"
proof (cases "t \<noteq> [] \<and> last t = LF")
  case True
  then have "LF \<in> set t" using last_in_set [of t] by metis
  with assms show ?thesis by simp
next
  case False
  then show ?thesis by (auto simp: chomp_def)
qed

lemma find_chomp:
  "\<forall>t \<in> set ts. LF \<notin> set t \<Longrightarrow>
     (case find (\<lambda>t. numeric_literal (chomp t)) ts of
        None \<Rightarrow> None | Some t \<Rightarrow> Some (decimal_value (chomp t))) =
     (case find numeric_literal ts of None \<Rightarrow> None | Some t \<Rightarrow> Some (decimal_value t))"
  by (induction ts) (simp_all add: chomp_id)







section \<open>Properties of the block segmenter\<close>

lemma concat_map_concat:
  "concat (map f (concat (map h xs))) = concat (map (\<lambda>x. concat (map f (h x))) xs)"
  by (induction xs) simp_all

lemma run_Seq_assoc: "run (Seq (Seq a b) c) st = run (Seq a (Seq b c)) st"
proof -
  have "run (Seq b c) = (\<lambda>x. concat (map (run c) (run b x)))" by (rule ext) simp
  then show ?thesis by (simp add: concat_map_concat)
qed

lemma run_Seq_Chr:
  "run (Seq (Chr P) b) (p, s, g) =
     (case s of [] \<Rightarrow> [] | c # cs \<Rightarrow> if P c then run b (Some c, cs, g) else [])"
  by (cases s) simp_all

lemma star_munch:
  assumes "\<And>p c cs. P c \<Longrightarrow> run b (p, c # cs, g) = []"
  shows "run (Seq (Star P) b) (p, s, g) = run b (prev_after p (takeWhile P s), dropWhile P s, g)"
proof (induction s arbitrary: p)
  case Nil
  show ?case by simp
next
  case (Cons c cs)
  show ?case
  proof (cases "P c")
    case True
    have "run (Seq (Star P) b) (p, c # cs, g) =
            run (Seq (Star P) b) (Some c, cs, g) @ run b (p, c # cs, g)"
      using True by simp
    then show ?thesis using True Cons.IH [of "Some c"] assms [OF True] by simp
  next
    case False
    then show ?thesis by simp
  qed
qed

lemma plus_munch:
  assumes "\<And>p c cs. P c \<Longrightarrow> run b (p, c # cs, g) = []"
  shows "run (Seq (plus P) b) (p, s, g) =
           (if takeWhile P s = [] then []
            else run b (prev_after p (takeWhile P s), dropWhile P s, g))"
proof -
  have "run (Seq (plus P) b) (p, s, g) = run (Seq (Chr P) (Seq (Star P) b)) (p, s, g)"
    unfolding plus_def by (rule run_Seq_assoc)
  also have "\<dots> = (case s of [] \<Rightarrow> []
      | c # cs \<Rightarrow> if P c then run (Seq (Star P) b) (Some c, cs, g) else [])"
    by (rule run_Seq_Chr)
  also have "\<dots> = (if takeWhile P s = [] then []
            else run b (prev_after p (takeWhile P s), dropWhile P s, g))"
    using star_munch [of P b g, OF assms] by (cases s) (simp_all del: run.simps)
  finally show ?thesis .
qed

lemma run_ch_ci:
  "run (ch_ci x) (p, s, g) =
     (case s of [] \<Rightarrow> [] | c # cs \<Rightarrow> if lower c = lower x then [(Some c, cs, g)] else [])"
  by (simp add: ch_ci_def)

lemma run_lit_ci_aux:
  "run (lit_ci w) (p, s, g) =
     (if length w \<le> length s \<and> map lower (take (length w) s) = map lower w
      then [(prev_after p (take (length w) s), drop (length w) s, g)] else [])"
proof (induction w arbitrary: p s)
  case Nil
  show ?case by (simp add: lit_ci_def)
next
  case (Cons x w)
  show ?case
  proof (cases w)
    case Nil
    then show ?thesis by (cases s) (simp_all add: lit_ci_def run_ch_ci del: run.simps)
  next
    case (Cons y w')
    then have "run (lit_ci (x # w)) (p, s, g) =
        concat (map (run (lit_ci w)) (run (ch_ci x) (p, s, g)))"
      by (simp add: lit_ci_def)
    then show ?thesis unfolding run_ch_ci
      by (cases s) (simp_all add: Cons.IH del: run.simps)
  qed
qed

lemma run_lit_ci:
  assumes "length w = n" "map lower w = lw"
  shows "run (lit_ci w) (p, s, g) =
     (if map lower (take n s) = lw then [(prev_after p (take n s), drop n s, g)] else [])"
proof -
  have "map lower (take n s) = lw \<Longrightarrow> n \<le> length s"
  proof -
    assume "map lower (take n s) = lw"
    then have "length (take n s) = length lw" by (metis length_map)
    with assms show ?thesis by (metis length_map length_take min.cobounded1 min_def)
  qed
  then show ?thesis unfolding run_lit_ci_aux [of w p s g] assms by auto
qed

lemma first_outcome_append:
  "first_outcome (xs @ ys) = (case first_outcome xs of Some x \<Rightarrow> Some x | None \<Rightarrow> first_outcome ys)"
  by (cases xs) (simp_all add: first_outcome_def)

lemma first_outcome_simps [simp]:
  "first_outcome [] = None" "first_outcome (x # xs) = Some x"
  by (simp_all add: first_outcome_def)

lemma space_lower: "is_space c \<Longrightarrow> lower c = c"
  by (auto simp: is_space_def lower_def)

lemma phrase_lower: "map lower ''Total Data'' = ''total data''"
  by code_simp

lemma run_phrase:
  "run (lit_ci ''Total Data'') (p, s, g) =
     (if map lower (take 10 s) = ''total data''
      then [(prev_after p (take 10 s), drop 10 s, g)] else [])"
  by (rule run_lit_ci) (simp, rule phrase_lower)

lemma phrase_not_space:
  assumes "map lower (take 10 a) = ''total data''"
  shows "a \<noteq> [] \<and> \<not> is_space (hd a)"
proof (cases a)
  case Nil
  with assms show ?thesis by simp
next
  case (Cons c cs)
  with assms have l: "lower c = CHR ''t''" by simp
  have "\<not> is_space c"
  proof
    assume "is_space c"
    with l have "is_space CHR ''t''" using space_lower by metis
    then show False by (simp add: is_space_def code_def)
  qed
  with Cons show ?thesis by simp
qed

lemma run_ws_LF:
  "first_outcome (run (Seq (Star is_space) (ch LF)) (p, b, g)) =
     map_option (\<lambda>r. (Some LF, r, g)) (after_last_LF b)"
proof (induction b arbitrary: p)
  case Nil
  show ?case by (simp add: ch_def)
next
  case (Cons c cs)
  have "run (Seq (Star is_space) (ch LF)) (p, c # cs, g) =
          (if is_space c then run (Seq (Star is_space) (ch LF)) (Some c, cs, g) else [])
          @ (if c = LF then [(Some LF, cs, g)] else [])"
    by (simp add: ch_def)
  then show ?case
    using Cons.IH [of "Some c"]
    by (simp add: first_outcome_append char_facts del: run.simps split: option.splits)
qed

lemma run_lit_reject:
  "is_space c \<Longrightarrow> run (Seq (lit_ci ''Total Data'') b) (p, c # cs, g) = []"
proof -
  assume sp: "is_space c"
  have "map lower (take 10 (c # cs)) \<noteq> ''total data''"
    using phrase_not_space [of "c # cs"] sp by auto
  then have "run (lit_ci ''Total Data'') (p, c # cs, g) = []"
    unfolding run_phrase by simp
  then show ?thesis by simp
qed

lemma run_total_data:
  "first_outcome (run rx_total_data (p, s, g)) =
     map_option (\<lambda>r. (Some LF, r, g)) (delimiter_end s)"
proof (cases s)
  case Nil
  then show ?thesis by (simp add: rx_total_data_def delimiter_end_def ch_def)
next
  case (Cons c cs)
  let ?tail = "Seq (Star is_space) (ch LF)"
  let ?mid = "Seq (lit_ci ''Total Data'') ?tail"
  let ?a = "dropWhile is_space cs"
  have 1: "run rx_total_data (p, c # cs, g) =
      (if c = LF then run (Seq (Star is_space) ?mid) (Some c, cs, g) else [])"
    unfolding rx_total_data_def by (simp add: ch_def)
  have 2: "run (Seq (Star is_space) ?mid) (Some c, cs, g) =
      run ?mid (prev_after (Some c) (takeWhile is_space cs), ?a, g)"
    by (rule star_munch) (rule run_lit_reject)
  have 3: "run ?mid (q, ?a, g) =
      (if map lower (take 10 ?a) = ''total data''
       then run ?tail (prev_after q (take 10 ?a), drop 10 ?a, g) else [])" for q
  proof -
    have "run ?mid (q, ?a, g) = concat (map (run ?tail) (run (lit_ci ''Total Data'') (q, ?a, g)))"
      by simp
    also have "\<dots> = (if map lower (take 10 ?a) = ''total data''
       then run ?tail (prev_after q (take 10 ?a), drop 10 ?a, g) else [])"
      unfolding run_phrase by (simp del: run.simps)
    finally show ?thesis .
  qed
  have "run rx_total_data (p, c # cs, g) =
      (if c = LF \<and> map lower (take 10 ?a) = ''total data''
       then run ?tail (prev_after (prev_after (Some c) (takeWhile is_space cs)) (take 10 ?a),
                       drop 10 ?a, g)
       else [])"
    unfolding 1 2 3 by simp
  then show ?thesis
    unfolding Cons delimiter_end_def Let_def
    by (simp add: run_ws_LF del: run.simps)
qed

lemma scan_total_data:
  "scan rx_total_data p s =
     map_option (\<lambda>(pre, r). (pre, Some LF, r, [])) (cut_at_delimiter s)"
proof (induction s arbitrary: p)
  case Nil
  have "first_outcome (run rx_total_data (p, [], [])) = None"
    unfolding run_total_data by (simp add: delimiter_end_def)
  then have "run rx_total_data (p, [], []) = []"
    by (cases "run rx_total_data (p, [], [])") simp_all
  then show ?case by simp
next
  case (Cons c cs)
  show ?case
  proof (cases "delimiter_end (c # cs)")
    case None
    then have "first_outcome (run rx_total_data (p, c # cs, [])) = None"
      unfolding run_total_data by simp
    then have "run rx_total_data (p, c # cs, []) = []"
      by (cases "run rx_total_data (p, c # cs, [])") simp_all
    then show ?thesis using None Cons.IH [of "Some c"]
      by (simp add: option.map_comp comp_def case_prod_beta del: run.simps)
  next
    case (Some r)
    then have "first_outcome (run rx_total_data (p, c # cs, [])) = Some (Some LF, r, [])"
      unfolding run_total_data by simp
    then obtain xs where "run rx_total_data (p, c # cs, []) = (Some LF, r, []) # xs"
      by (cases "run rx_total_data (p, c # cs, [])") simp_all
    then show ?thesis using Some by (simp del: run.simps)
  qed
qed


declare pieces.simps [simp del]

lemma after_last_LF_shape:
  "after_last_LF b = Some r \<Longrightarrow>
     \<exists>w. b = w @ r \<and> w \<noteq> [] \<and> list_all is_space w \<and> after_last_LF w = Some []"
proof (induction b arbitrary: r)
  case Nil
  then show ?case by simp
next
  case (Cons c cs)
  from Cons.prems have sp: "is_space c" by (simp split: if_splits)
  show ?case
  proof (cases "after_last_LF cs")
    case None
    with Cons.prems sp have "c = LF" "r = cs" by (simp_all split: if_splits)
    then show ?thesis using sp by (intro exI [of _ "[LF]"]) simp
  next
    case (Some r')
    with Cons.prems sp have "r = r'" by simp
    with Some Cons.IH obtain w where "cs = w @ r" "list_all is_space w" "after_last_LF w = Some []"
      by blast
    then show ?thesis using sp by (intro exI [of _ "c # w"]) simp
  qed
qed

lemma after_last_LF_mono: "after_last_LF b \<noteq> None \<Longrightarrow> after_last_LF (b @ v) \<noteq> None"
  by (induction b) (auto split: if_splits option.splits)

lemma dropWhile_takeWhile_append:
  "ys \<noteq> [] \<Longrightarrow> \<not> P (hd ys) \<Longrightarrow> dropWhile P (takeWhile P xs @ ys) = ys"
  by (induction xs) (auto simp: neq_Nil_conv)

lemma phrase_length: "map lower (take 10 a) = ''total data'' \<Longrightarrow> 10 \<le> length a"
proof -
  assume "map lower (take 10 a) = ''total data''"
  then have "length (map lower (take 10 a)) = 10" by simp
  then show ?thesis by simp
qed

lemma delimiter_end_shape:
  assumes "delimiter_end s = Some r"
  shows "\<exists>d. s = d @ r \<and> d \<noteq> [] \<and> delimiter_end d = Some []"
proof -
  from assms obtain cs where s: "s = LF # cs"
    by (cases s) (auto simp: delimiter_end_def split: if_splits)
  define a where "a = dropWhile is_space cs"
  from assms have ph: "map lower (take 10 a) = ''total data''"
    and al: "after_last_LF (drop 10 a) = Some r"
    unfolding s a_def delimiter_end_def by (simp_all add: Let_def split: if_splits)
  from after_last_LF_shape [OF al] obtain w where
    w: "drop 10 a = w @ r" "after_last_LF w = Some []" by blast
  define d where "d = LF # takeWhile is_space cs @ take 10 a @ w"
  have len: "length (take 10 a) = 10" using phrase_length [OF ph] by simp
  have ph': "map lower (take 10 (take 10 a @ w)) = ''total data''" using ph len by simp
  from phrase_not_space [OF ph'] have "dropWhile is_space (takeWhile is_space cs @ take 10 a @ w) = take 10 a @ w"
    by (intro dropWhile_takeWhile_append) simp_all
  then have "delimiter_end d = Some []"
    unfolding d_def delimiter_end_def using ph len w(2) by (simp add: Let_def)
  moreover have "cs = takeWhile is_space cs @ a" unfolding a_def by simp
  then have "cs = takeWhile is_space cs @ take 10 a @ drop 10 a" by simp
  then have "s = d @ r" unfolding s d_def w(1) by simp
  ultimately show ?thesis unfolding d_def by blast
qed

lemma delimiter_end_mono:
  assumes "delimiter_end u \<noteq> None"
  shows "delimiter_end (u @ v) \<noteq> None"
proof -
  from assms obtain cs where u: "u = LF # cs"
    by (cases u) (auto simp: delimiter_end_def split: if_splits)
  define a where "a = dropWhile is_space cs"
  from assms have ph: "map lower (take 10 a) = ''total data''"
    and al: "after_last_LF (drop 10 a) \<noteq> None"
    unfolding u a_def delimiter_end_def by (simp_all add: Let_def split: if_splits)
  from phrase_not_space [OF ph] have "a \<noteq> []" by simp
  then have "dropWhile is_space (cs @ v) = a @ v"
    unfolding a_def by (induction cs) auto
  moreover have "take 10 (a @ v) = take 10 a" "drop 10 (a @ v) = drop 10 a @ v"
    using phrase_length [OF ph] by simp_all
  ultimately show ?thesis
    unfolding u delimiter_end_def using ph after_last_LF_mono [OF al, of v]
    by (simp add: Let_def)
qed

lemma has_delimiter_iff:
  "has_delimiter s \<longleftrightarrow> (\<exists>a b. s = a @ b \<and> delimiter_end b \<noteq> None)"
proof (induction s)
  case Nil
  show ?case by (simp add: delimiter_end_def)
next
  case (Cons c cs)
  show ?case
  proof
    assume "has_delimiter (c # cs)"
    then consider "delimiter_end (c # cs) \<noteq> None" | "has_delimiter cs" by auto
    then show "\<exists>a b. c # cs = a @ b \<and> delimiter_end b \<noteq> None"
    proof cases
      case 1
      then show ?thesis by (intro exI [of _ "[]"] exI [of _ "c # cs"]) simp
    next
      case 2
      then obtain a b where "cs = a @ b" "delimiter_end b \<noteq> None" using Cons.IH by blast
      then show ?thesis by (intro exI [of _ "c # a"] exI [of _ b]) simp
    qed
  next
    assume "\<exists>a b. c # cs = a @ b \<and> delimiter_end b \<noteq> None"
    then obtain a b where ab: "c # cs = a @ b" "delimiter_end b \<noteq> None" by blast
    show "has_delimiter (c # cs)"
    proof (cases a)
      case Nil
      with ab have "delimiter_end (c # cs) \<noteq> None" by simp
      then show ?thesis by simp
    next
      case (Cons x a')
      with ab have "cs = a' @ b" by simp
      with ab(2) Cons.IH show ?thesis by auto
    qed
  qed
qed

lemma has_delimiter_append: "has_delimiter u \<Longrightarrow> has_delimiter (u @ v)"
proof -
  assume "has_delimiter u"
  then obtain a b where "u = a @ b" "delimiter_end b \<noteq> None" unfolding has_delimiter_iff by blast
  then have "u @ v = a @ (b @ v)" "delimiter_end (b @ v) \<noteq> None"
    using delimiter_end_mono by simp_all
  then show ?thesis unfolding has_delimiter_iff by blast
qed

lemma cut_None: "cut_at_delimiter s = None \<longleftrightarrow> \<not> has_delimiter s"
  by (induction s) (auto split: option.splits)

lemma cut_Some:
  "cut_at_delimiter s = Some (pre, r) \<Longrightarrow>
     (\<exists>d. s = pre @ d @ r \<and> d \<noteq> [] \<and> delimiter_end d = Some []) \<and> \<not> has_delimiter pre"
proof (induction s arbitrary: pre)
  case Nil
  then show ?case by simp
next
  case (Cons c cs)
  show ?case
  proof (cases "delimiter_end (c # cs)")
    case (Some r')
    with Cons.prems have "pre = []" "r' = r" by simp_all
    with delimiter_end_shape [OF Some] show ?thesis by simp
  next
    case None
    with Cons.prems obtain pre' where pre: "pre = c # pre'" "cut_at_delimiter cs = Some (pre', r)"
      by auto
    from Cons.IH [OF pre(2)] obtain d where
      d: "cs = pre' @ d @ r" "d \<noteq> []" "delimiter_end d = Some []" and n: "\<not> has_delimiter pre'"
      by blast
    have "delimiter_end (c # pre') = None"
    proof (rule ccontr)
      assume "delimiter_end (c # pre') \<noteq> None"
      from delimiter_end_mono [OF this, of "d @ r"] None d(1) show False by simp
    qed
    with n have "\<not> has_delimiter pre" unfolding pre(1) by simp
    with d show ?thesis unfolding pre(1) by auto
  qed
qed

lemma split_pieces: "re_split_from rx_total_data p s = pieces s"
proof (induction s arbitrary: p rule: length_induct)
  case (1 s)
  show ?case
  proof (cases "cut_at_delimiter s")
    case None
    then show ?thesis
      unfolding re_split_from.simps [of rx_total_data p s] pieces.simps [of s] scan_total_data
      by simp
  next
    case (Some a)
    obtain pre r where a: "a = (pre, r)" by (cases a)
    show ?thesis
    proof (cases "length r < length s")
      case True
      with 1 have "re_split_from rx_total_data (Some LF) r = pieces r" by blast
      then show ?thesis
        unfolding re_split_from.simps [of rx_total_data p s] pieces.simps [of s] scan_total_data
        using Some a True by simp
    next
      case False
      then show ?thesis
        unfolding re_split_from.simps [of rx_total_data p s] pieces.simps [of s] scan_total_data
        using Some a by simp
    qed
  qed
qed

lemma pieces_plain: "\<not> has_delimiter s \<Longrightarrow> pieces s = [s]"
  unfolding cut_None [symmetric] pieces.simps [of s] by simp

lemma pieces_cut:
  assumes "cut_at_delimiter s = Some (pre, r)"
  shows "pieces s = pre # pieces r"
proof -
  from cut_Some [OF assms] have "length r < length s" by auto
  then show ?thesis unfolding pieces.simps [of s] using assms by simp
qed

lemma pieces_not_Nil: "pieces s \<noteq> []"
  unfolding pieces.simps [of s] by (simp split: option.splits)


lemma pieces_free: "b \<in> set (pieces s) \<Longrightarrow> \<not> has_delimiter b"
proof (induction s rule: length_induct)
  case (1 s)
  show ?case
  proof (cases "cut_at_delimiter s")
    case None
    then have "pieces s = [s]" "\<not> has_delimiter s" using pieces_plain cut_None by blast+
    with 1(2) show ?thesis by simp
  next
    case (Some a)
    obtain pre r where a: "a = (pre, r)" by (cases a)
    note c = Some [unfolded a]
    from cut_Some [OF c] have "length r < length s" "\<not> has_delimiter pre" by auto
    with 1 pieces_cut [OF c] show ?thesis by auto
  qed
qed

lemma pieces_length: "length (pieces s) \<le> 1 \<longleftrightarrow> \<not> has_delimiter s"
proof (cases "cut_at_delimiter s")
  case None
  then show ?thesis using pieces_plain cut_None by auto
next
  case (Some a)
  obtain pre r where a: "a = (pre, r)" by (cases a)
  from pieces_cut [OF Some [unfolded a]] pieces_not_Nil [of r] Some cut_None [of s]
  show ?thesis by (cases "pieces r") auto
qed

lemma split_app_blocks_pieces:
  "split_app_blocks text = (if has_delimiter text then tl (pieces text) else [text])"
  unfolding split_app_blocks_def re_split_def split_pieces Let_def pieces_length by simp


text \<open>
  C9. A text is returned as the only block exactly when no delimiter occurrence (a line
  feed, optional whitespace, the phrase in any letter case, optional whitespace, a line
  feed) starts anywhere in it; in particular a text in which the phrase does not occur on
  a line of its own comes back whole. The list of blocks is never empty.
\<close>

theorem split_without_delimiter:
  "(split_app_blocks text = [text] \<longleftrightarrow> \<not> has_delimiter text)
   \<and> split_app_blocks text \<noteq> []"
proof (intro conjI iffI)
  assume "\<not> has_delimiter text"
  then show "split_app_blocks text = [text]" unfolding split_app_blocks_pieces by simp
next
  assume a: "split_app_blocks text = [text]"
  show "\<not> has_delimiter text"
  proof
    assume h: "has_delimiter text"
    with a have "tl (pieces text) = [text]" unfolding split_app_blocks_pieces by simp
    then have "text \<in> set (pieces text)" by (metis list.set_intros(1) list.set_sel(2) tl_Nil list.distinct(1))
    from pieces_free [OF this] h show False by simp
  qed
next
  show "split_app_blocks text \<noteq> []"
  proof (cases "has_delimiter text")
    case True
    then have "\<not> length (pieces text) \<le> 1" unfolding pieces_length by simp
    then have "tl (pieces text) \<noteq> []" by (cases "pieces text") auto
    with True show ?thesis unfolding split_app_blocks_pieces by simp
  next
    case False
    then show ?thesis unfolding split_app_blocks_pieces by simp
  qed
qed

lemma example_no_delimiter: "\<not> has_delimiter ''Report without the heading''"
  by code_simp

theorem split_without_delimiter_witness:
  "split_app_blocks ''Report without the heading'' = [''Report without the heading'']"
  using split_without_delimiter [of "''Report without the heading''", THEN conjunct1, THEN iffD2,
    OF example_no_delimiter] .





section \<open>Properties of the row extractor\<close>

lemma run_runk: "run r st = runk r (\<lambda>x. [x]) st"
  by (simp add: runk_def)

lemma runk_Seq: "runk (Seq a b) F = runk a (runk b F)"
proof (rule ext)
  fix st
  have "runk b F = (\<lambda>x. concat (map F (run b x)))" by (rule ext) (simp add: runk_def)
  then show "runk (Seq a b) F st = runk a (runk b F) st"
    by (simp add: runk_def concat_map_concat)
qed

lemma runk_Chr:
  "runk (Chr P) F (p, s, g) =
     (case s of [] \<Rightarrow> [] | c # cs \<Rightarrow> if P c then F (Some c, cs, g) else [])"
  by (cases s) (simp_all add: runk_def)

lemma runk_ch:
  "runk (ch x) F (p, s, g) =
     (case s of [] \<Rightarrow> [] | c # cs \<Rightarrow> if c = x then F (Some c, cs, g) else [])"
  unfolding ch_def runk_Chr ..

lemma runk_Opt: "runk (Opt a) F st = runk a F st @ F st"
  by (simp add: runk_def)

lemma runk_Grp:
  "runk (Grp n a) F (p, s, g) =
     runk a (\<lambda>(p', s', g'). F (p', s', (n, take (length s - length s') s) # g')) (p, s, g)"
  by (simp add: runk_def comp_def case_prod_unfold)

lemma runk_Bol: "runk Bol F (p, s, g) = (if p = None then F (p, s, g) else [])"
  by (auto simp: runk_def)

lemma runk_Bol_None: "runk Bol F (None, s, g) = F (None, s, g)"
  by (simp add: runk_def)

lemma runk_Eol: "runk Eol F (p, s, g) = (if s = [] \<or> s = [LF] then F (p, s, g) else [])"
  by (simp add: runk_def)

lemma runk_WordB:
  "runk WordB F (p, s, g) = (if word_before p \<noteq> word_after s then F (p, s, g) else [])"
  by (simp add: runk_def)

lemma runk_Star:
  assumes "rejects P F"
  shows "runk (Star P) F (p, s, g) = F (prev_after p (takeWhile P s), dropWhile P s, g)"
proof (induction s arbitrary: p)
  case Nil
  show ?case by (simp add: runk_def)
next
  case (Cons c cs)
  show ?case
  proof (cases "P c")
    case True
    have "runk (Star P) F (p, c # cs, g) = runk (Star P) F (Some c, cs, g) @ F (p, c # cs, g)"
      using True by (simp add: runk_def)
    moreover have "F (p, c # cs, g) = []" using assms True unfolding rejects_def by blast
    ultimately show ?thesis using True Cons.IH [of "Some c"] by simp
  next
    case False
    then show ?thesis by (simp add: runk_def)
  qed
qed

lemma runk_plus:
  assumes "rejects P F"
  shows "runk (plus P) F (p, s, g) =
           (if takeWhile P s = [] then []
            else F (prev_after p (takeWhile P s), dropWhile P s, g))"
proof (cases s)
  case Nil
  then show ?thesis unfolding plus_def runk_Seq runk_Chr by simp
next
  case (Cons c cs)
  show ?thesis unfolding plus_def runk_Seq runk_Chr Cons
    using runk_Star [OF assms, of "Some c" cs g] by simp
qed

lemma runk_Opt_Chr:
  assumes "rejects P F"
  shows "runk (Opt (Chr P)) F (p, s, g) =
           (case s of [] \<Rightarrow> F (p, s, g)
            | c # cs \<Rightarrow> if P c then F (Some c, cs, g) else F (p, s, g))"
proof (cases s)
  case Nil
  then show ?thesis unfolding runk_Opt runk_Chr by simp
next
  case (Cons c cs)
  show ?thesis
  proof (cases "P c")
    case True
    then have "F (p, c # cs, g) = []" using assms unfolding rejects_def by blast
    then show ?thesis unfolding runk_Opt runk_Chr Cons using True by simp
  next
    case False
    then show ?thesis unfolding runk_Opt runk_Chr Cons by simp
  qed
qed

lemma runk_lit:
  assumes "length w = n" "map lower w = lw"
  shows "runk (lit_ci w) F (p, s, g) =
     (if map lower (take n s) = lw then F (prev_after p (take n s), drop n s, g) else [])"
  unfolding runk_def run_lit_ci [OF assms] by simp

lemma rejects_Chr: "(\<And>c. P c \<Longrightarrow> \<not> Q c) \<Longrightarrow> rejects P (runk (Chr Q) F)"
  unfolding rejects_def runk_Chr by simp

lemma rejects_Seq: "rejects P (runk a (runk b F)) \<Longrightarrow> rejects P (runk (Seq a b) F)"
  unfolding rejects_def runk_Seq .

lemma rejects_plus: "(\<And>c. P c \<Longrightarrow> \<not> Q c) \<Longrightarrow> rejects P (runk (plus Q) F)"
  unfolding plus_def by (intro rejects_Seq rejects_Chr)

lemma rejects_append: "rejects P F \<Longrightarrow> rejects P G \<Longrightarrow> rejects P (\<lambda>x. F x @ G x)"
  unfolding rejects_def by simp

lemma rejects_group:
  "rejects P F \<Longrightarrow> rejects P (\<lambda>(p', s', g'). F (p', s', h s' # g'))"
  unfolding rejects_def by simp

lemma first_outcome_runk:
  "run r st = x # xs \<Longrightarrow> F x \<noteq> [] \<Longrightarrow> first_outcome (runk r F st) = first_outcome (F x)"
  unfolding runk_def by (cases "F x") simp_all

text \<open>The end of both line patterns: the rest of a line without line feed.\<close>

lemma runk_rest:
  assumes "LF \<notin> set s"
  shows "runk (Grp n (Star not_LF)) (runk Eol (\<lambda>x. [x])) (p, s, g) =
           [(prev_after p s, [], (n, s) # g)]"
proof -
  have r: "rejects not_LF (\<lambda>(p', s', g'). runk Eol (\<lambda>x. [x]) (p', s', (n, take (length s - length s') s) # g'))"
    unfolding rejects_def runk_Eol by (simp add: not_LF_def)
  have tw: "takeWhile not_LF s = s" "dropWhile not_LF s = []"
    using assms by (auto simp: not_LF_def takeWhile_eq_all_conv)
  show ?thesis unfolding runk_Grp runk_Star [OF r] tw by (simp add: runk_Eol)
qed


lemma word_not_space: "is_word c \<Longrightarrow> \<not> is_space c"
  by (auto simp: is_word_def is_space_def is_digit_def)

lemma space_not_word: "is_space c \<Longrightarrow> \<not> is_word c"
  using word_not_space by blast

lemma space_not_digit: "is_space c \<Longrightarrow> \<not> is_digit c"
  using digit_not_space by blast

lemma digit_word: "is_digit c \<Longrightarrow> is_word c"
  by (simp add: is_word_def)

lemma runk_digits12:
  assumes "rejects is_digit F"
  shows "runk (Chr is_digit) (runk (Opt (Chr is_digit)) F) (p, s, g) =
     (if takeWhile is_digit s \<noteq> [] \<and> length (takeWhile is_digit s) \<le> 2
      then F (prev_after p (takeWhile is_digit s), dropWhile is_digit s, g) else [])"
proof (cases s)
  case Nil
  then show ?thesis by (simp add: runk_Chr)
next
  case s: (Cons c cs)
  show ?thesis
  proof (cases "is_digit c")
    case False
    then show ?thesis unfolding s by (simp add: runk_Chr)
  next
    case c: True
    show ?thesis
    proof (cases cs)
      case Nil
      then show ?thesis unfolding s using c by (simp add: runk_Chr runk_Opt_Chr [OF assms])
    next
      case cs: (Cons d ds)
      show ?thesis
      proof (cases "is_digit d")
        case False
        then show ?thesis unfolding s cs using c
          by (simp add: runk_Chr runk_Opt_Chr [OF assms])
      next
        case d: True
        show ?thesis
        proof (cases "ds \<noteq> [] \<and> is_digit (hd ds)")
          case True
          then obtain e es where ds: "ds = e # es" "is_digit e" by (cases ds) auto
          then have "F (Some d, ds, g) = []" using assms unfolding rejects_def by blast
          then show ?thesis unfolding s cs using c d ds
            by (simp add: runk_Chr runk_Opt_Chr [OF assms])
        next
          case False
          then have "takeWhile is_digit ds = []" "dropWhile is_digit ds = ds"
            by (cases ds; simp)+
          then show ?thesis unfolding s cs using c d
            by (simp add: runk_Chr runk_Opt_Chr [OF assms])
        qed
      qed
    qed
  qed
qed

lemma runk_number_word:
  assumes "rejects is_word F"
  shows "runk (Chr is_digit) (runk (Opt (Chr is_digit))
           (runk (plus is_space) (runk (plus is_word) F))) (p, s, g) =
     (case number_word s of
        None \<Rightarrow> []
      | Some (nw, r) \<Rightarrow> F (prev_after p nw, r, g))"
proof -
  have w: "rejects is_space (runk (plus is_word) F)"
    by (rule rejects_plus) (rule space_not_word)
  have d: "rejects is_digit (runk (plus is_space) (runk (plus is_word) F))"
    by (rule rejects_plus) (rule digit_not_space)
  show ?thesis
    unfolding runk_digits12 [OF d] runk_plus [OF w] runk_plus [OF assms] number_word_def Let_def
    by simp
qed

lemma number_word_append: "number_word s = Some (nw, r) \<Longrightarrow> s = nw @ r"
proof -
  assume "number_word s = Some (nw, r)"
  then have "nw = takeWhile is_digit s @ takeWhile is_space (dropWhile is_digit s)
      @ takeWhile is_word (dropWhile is_space (dropWhile is_digit s))"
    "r = dropWhile is_word (dropWhile is_space (dropWhile is_digit s))"
    unfolding number_word_def Let_def by (simp_all split: if_splits)
  then show ?thesis by (simp del: takeWhile_append dropWhile_append)
qed


lemma to_lower: "map lower ''to'' = ''to''"
  by code_simp

lemma to_not_space: "is_space c \<Longrightarrow> lower c \<noteq> CHR ''t''"
proof
  assume "is_space c" "lower c = CHR ''t''"
  then have "is_space CHR ''t''" using space_lower by metis
  then show False by (simp add: is_space_def code_def)
qed

lemma rejects_to: "rejects is_space (runk (lit_ci ''to'') F)"
proof -
  have l: "runk (lit_ci ''to'') F (q, a, g) =
     (if map lower (take 2 a) = ''to'' then F (prev_after q (take 2 a), drop 2 a, g) else [])"
    for q a g
    by (rule runk_lit) (simp, rule to_lower)
  have "runk (lit_ci ''to'') F (p, c # cs, g) = []" if "is_space c" for p c cs g
  proof -
    have ne: "map lower (take 2 (c # cs)) \<noteq> ''to''" using to_not_space [OF that] by auto
    show ?thesis unfolding l if_not_P [OF ne] ..
  qed
  then show ?thesis unfolding rejects_def by blast
qed

lemma runk_to_extension:
  assumes "rejects is_word F"
  shows "runk (plus is_space) (runk (lit_ci ''to'') (runk (plus is_space)
           (runk (Chr is_digit) (runk (Opt (Chr is_digit))
             (runk (plus is_space) (runk (plus is_word) F)))))) (p, s, g) =
     (case to_extension s of
        None \<Rightarrow> []
      | Some (e, r) \<Rightarrow> F (prev_after p e, r, g))"
proof -
  let ?N = "runk (Chr is_digit) (runk (Opt (Chr is_digit))
             (runk (plus is_space) (runk (plus is_word) F)))"
  have n: "rejects is_space ?N" by (rule rejects_Chr) (rule space_not_digit)
  have t: "rejects is_space (runk (lit_ci ''to'') (runk (plus is_space) ?N))" by (rule rejects_to)
  have l: "runk (lit_ci ''to'') G (q, a, g) =
     (if map lower (take 2 a) = ''to'' then G (prev_after q (take 2 a), drop 2 a, g) else [])"
    for G q a
    by (rule runk_lit) (simp, rule to_lower)
  show ?thesis
    unfolding runk_plus [OF t] l runk_plus [OF n] runk_number_word [OF assms]
      to_extension_def Let_def
    by (simp split: option.splits)
qed

lemma to_extension_append: "to_extension s = Some (e, r) \<Longrightarrow> s = e @ r"
proof -
  assume a: "to_extension s = Some (e, r)"
  let ?a = "dropWhile is_space s"
  let ?b = "dropWhile is_space (drop 2 ?a)"
  from a obtain nw where nw: "number_word ?b = Some (nw, r)"
    and e: "e = takeWhile is_space s @ take 2 ?a @ takeWhile is_space (drop 2 ?a) @ nw"
    unfolding to_extension_def Let_def by (auto split: if_splits option.splits)
  have "s = takeWhile is_space s @ ?a" by simp
  also have "?a = take 2 ?a @ drop 2 ?a" by simp
  also have "drop 2 ?a = takeWhile is_space (drop 2 ?a) @ ?b" by simp
  also have "?b = nw @ r" by (rule number_word_append [OF nw])
  finally show ?thesis unfolding e by simp
qed

lemma star_greedy_first:
  "\<exists>xs. star_greedy P p s = (prev_after p (takeWhile P s), dropWhile P s) # xs"
proof (induction s arbitrary: p)
  case Nil
  show ?case by simp
next
  case (Cons c cs)
  from Cons [of "Some c"] show ?case by (cases "P c") auto
qed

lemma run_plus_first:
  assumes "s \<noteq> []" "P (hd s)"
  shows "\<exists>xs. run (plus P) (p, s, g) = (prev_after p (takeWhile P s), dropWhile P s, g) # xs"
proof -
  from assms obtain c cs where s: "s = c # cs" "P c" by (cases s) auto
  from star_greedy_first [of P "Some c" cs] obtain xs where
    "star_greedy P (Some c) cs = (prev_after (Some c) (takeWhile P cs), dropWhile P cs) # xs" ..
  then show ?thesis unfolding s plus_def using s(2) by simp
qed

lemma run_plus_none: "s = [] \<or> \<not> P (hd s) \<Longrightarrow> run (plus P) (p, s, g) = []"
  unfolding plus_def by (cases s) auto

text \<open>The end of the phrase pattern: whitespace and the rest of the line.\<close>

lemma first_space_rest:
  assumes "LF \<notin> set s"
  shows "first_outcome (runk (plus is_space)
           (runk (Grp 2 (Star not_LF)) (runk Eol (\<lambda>x. [x]))) (p, s, g)) =
     (if s \<noteq> [] \<and> is_space (hd s)
      then Some (prev_after p s, [], (2, dropWhile is_space s) # g) else None)"
proof (cases "s \<noteq> [] \<and> is_space (hd s)")
  case True
  let ?F = "runk (Grp 2 (Star not_LF)) (runk Eol (\<lambda>x. [x]))"
  from True run_plus_first [of s is_space p g] obtain xs where
    r: "run (plus is_space) (p, s, g) =
         (prev_after p (takeWhile is_space s), dropWhile is_space s, g) # xs" by blast
  have "LF \<notin> set (dropWhile is_space s)" using assms by (meson set_dropWhileD)
  from runk_rest [OF this]
  have f: "?F (prev_after p (takeWhile is_space s), dropWhile is_space s, g) =
      [(prev_after (prev_after p (takeWhile is_space s)) (dropWhile is_space s), [],
        (2, dropWhile is_space s) # g)]" .
  have "prev_after (prev_after p (takeWhile is_space s)) (dropWhile is_space s) = prev_after p s"
    unfolding prev_after_append [symmetric] by simp
  with f first_outcome_runk [OF r, of ?F] True show ?thesis by simp
next
  case False
  then have "run (plus is_space) (p, s, g) = []" by (intro run_plus_none) auto
  with False show ?thesis by (simp add: runk_def)
qed


lemma re_match_first:
  "re_match r s = map_option (\<lambda>(p, s', g). g) (first_outcome (run r (None, s, [])))"
  unfolding re_match_def first_outcome_def by (simp split: list.splits)

lemma match_phrase_line:
  assumes "LF \<notin> set line"
  shows "re_match rx_phrase_line line =
           map_option (\<lambda>(d, r). [(2, r), (1, d)]) (phrase_split line)"
proof -
  let ?K = "runk (plus is_space) (runk (Grp 2 (Star not_LF)) (runk Eol (\<lambda>x. [x])))"
  let ?K1 = "\<lambda>(p', s', g'). ?K (p', s', (1, take (length line - length s') line) # g')"
  let ?TO = "seqs [plus is_space, lit_ci ''to'', plus is_space,
                   Chr is_digit, Opt (Chr is_digit), plus is_space, plus is_word]"
  let ?R = "run rx_phrase_line (None, line, [])"
  have k: "rejects is_word ?K" by (rule rejects_plus) (rule word_not_space)
  have k1: "rejects is_word ?K1" by (rule rejects_group [OF k])
  have to: "runk ?TO ?K1 (p, s, g) =
      (case to_extension s of None \<Rightarrow> [] | Some (e, r) \<Rightarrow> ?K1 (prev_after p e, r, g))" for p s g
    unfolding seqs.simps runk_Seq by (rule runk_to_extension [OF k1])
  have "rejects is_word (runk ?TO ?K1)"
    unfolding seqs.simps runk_Seq by (rule rejects_plus) (rule word_not_space)
  then have "rejects is_word (\<lambda>x. runk ?TO ?K1 x @ ?K1 x)" using k1 by (rule rejects_append)
  moreover have "runk (Opt ?TO) ?K1 = (\<lambda>x. runk ?TO ?K1 x @ ?K1 x)"
    by (rule ext) (rule runk_Opt)
  ultimately have o: "rejects is_word (runk (Opt ?TO) ?K1)" by simp
  let ?A = "seqs [Chr is_digit, Opt (Chr is_digit), plus is_space, plus is_word, Opt ?TO]"
  have "?R = runk rx_phrase_line (\<lambda>x. [x]) (None, line, [])" by (rule run_runk)
  also have "\<dots> = runk Bol (runk (Grp 1 ?A) ?K) (None, line, [])"
    unfolding rx_phrase_line_def seqs.simps runk_Seq ..
  finally have 1: "?R = runk Bol (runk (Grp 1 ?A) ?K) (None, line, [])" .
  have 2: "runk Bol (runk (Grp 1 ?A) ?K) (None, line, []) = runk (Grp 1 ?A) ?K (None, line, [])"
    by (rule runk_Bol_None)
  have 3: "runk (Grp 1 ?A) ?K (None, line, []) = runk ?A ?K1 (None, line, [])"
    by (rule runk_Grp)
  have 4: "runk ?A ?K1 = runk (Chr is_digit) (runk (Opt (Chr is_digit))
           (runk (plus is_space) (runk (plus is_word) (runk (Opt ?TO) ?K1))))"
    unfolding seqs.simps runk_Seq ..
  have R: "?R = (case number_word line of
        None \<Rightarrow> []
      | Some (nw, s3) \<Rightarrow> runk ?TO ?K1 (prev_after None nw, s3, []) @ ?K1 (prev_after None nw, s3, []))"
    unfolding 1 2 3 4 runk_number_word [OF o] runk_Opt ..
  show ?thesis
  proof (cases "number_word line")
    case None
    then show ?thesis unfolding re_match_first R phrase_split_def by simp
  next
    case (Some a)
    obtain nw s3 where a: "a = (nw, s3)" by (cases a)
    note nw = Some [unfolded a]
    have l3: "line = nw @ s3" by (rule number_word_append [OF nw])
    then have lf3: "LF \<notin> set s3" using assms by auto
    have g3: "take (length line - length s3) line = nw" unfolding l3 by simp
    let ?p3 = "prev_after None nw"
    have base: "first_outcome (?K1 (?p3, s3, [])) =
        (if s3 \<noteq> [] \<and> is_space (hd s3)
         then Some (prev_after ?p3 s3, [], [(2, dropWhile is_space s3), (1, nw)]) else None)"
      using first_space_rest [OF lf3, of ?p3 "[(1, nw)]"] g3 by simp
    show ?thesis
    proof (cases "to_extension s3")
      case None
      have "?R = ?K1 (?p3, s3, [])" unfolding R nw to
        by (simp only: None option.case prod.case append_Nil)
      then have fo: "first_outcome ?R =
          (if s3 \<noteq> [] \<and> is_space (hd s3)
           then Some (prev_after ?p3 s3, [], [(2, dropWhile is_space s3), (1, nw)]) else None)"
        using base by simp
      have ps: "phrase_split line =
          (if s3 \<noteq> [] \<and> is_space (hd s3) then Some (nw, dropWhile is_space s3) else None)"
        unfolding phrase_split_def by (simp add: nw None Let_def)
      show ?thesis unfolding re_match_first fo ps by simp
    next
      case (Some b)
      obtain e s4 where b: "b = (e, s4)" by (cases b)
      note te = Some [unfolded b]
      have l4: "s3 = e @ s4" by (rule to_extension_append [OF te])
      then have lf4: "LF \<notin> set s4" using lf3 by auto
      have g4: "take (length line - length s4) line = nw @ e" unfolding l3 l4 by simp
      let ?p4 = "prev_after ?p3 e"
      have ext1: "first_outcome (?K1 (?p4, s4, [])) =
          (if s4 \<noteq> [] \<and> is_space (hd s4)
           then Some (prev_after ?p4 s4, [], [(2, dropWhile is_space s4), (1, nw @ e)]) else None)"
        using first_space_rest [OF lf4, of ?p4 "[(1, nw @ e)]"] g4 by simp
      have "?R = ?K1 (?p4, s4, []) @ ?K1 (?p3, s3, [])" unfolding R nw to
        by (simp only: te option.case prod.case)
      then have "first_outcome ?R =
          (case first_outcome (?K1 (?p4, s4, [])) of
             Some x \<Rightarrow> Some x | None \<Rightarrow> first_outcome (?K1 (?p3, s3, [])))"
        by (simp only: first_outcome_append)
      then have fo: "first_outcome ?R =
          (if s4 \<noteq> [] \<and> is_space (hd s4)
           then Some (prev_after ?p4 s4, [], [(2, dropWhile is_space s4), (1, nw @ e)])
           else if s3 \<noteq> [] \<and> is_space (hd s3)
           then Some (prev_after ?p3 s3, [], [(2, dropWhile is_space s3), (1, nw)]) else None)"
        unfolding ext1 base by (simp del: One_nat_def)
      have ps: "phrase_split line =
          (if s4 \<noteq> [] \<and> is_space (hd s4) then Some (nw @ e, dropWhile is_space s4)
           else if s3 \<noteq> [] \<and> is_space (hd s3) then Some (nw, dropWhile is_space s3)
           else None)"
        unfolding phrase_split_def by (simp add: nw te Let_def)
      show ?thesis unfolding re_match_first fo ps by simp
    qed
  qed
qed


declare tokens_of.simps [simp del]

lemma star_first:
  "\<exists>xs. run (Star P) (p, s, g) = (prev_after p (takeWhile P s), dropWhile P s, g) # xs"
  using star_greedy_first [of P p s] by auto

lemma scan_spaces:
  "scan rx_spaces p s =
     (let a = takeWhile (\<lambda>c. \<not> is_space c) s; b = dropWhile (\<lambda>c. \<not> is_space c) s
      in if b = [] then None
         else Some (a, prev_after (prev_after p a) (takeWhile is_space b), dropWhile is_space b, []))"
proof (induction s arbitrary: p)
  case Nil
  have "run rx_spaces (p, [], []) = []" unfolding rx_spaces_def by (rule run_plus_none) simp
  then show ?case by simp
next
  case (Cons c cs)
  show ?case
  proof (cases "is_space c")
    case True
    from run_plus_first [of "c # cs" is_space p "[]"] True obtain xs where
      "run rx_spaces (p, c # cs, []) =
         (prev_after p (takeWhile is_space (c # cs)), dropWhile is_space (c # cs), []) # xs"
      unfolding rx_spaces_def by auto
    then show ?thesis using True by (simp add: Let_def del: run.simps)
  next
    case False
    have "run rx_spaces (p, c # cs, []) = []" unfolding rx_spaces_def
      by (rule run_plus_none) (simp add: False)
    then show ?thesis using False Cons.IH [of "Some c"] by (simp add: Let_def del: run.simps)
  qed
qed

lemma tokens_last:
  assumes "dropWhile (\<lambda>c. \<not> is_space c) s = []"
  shows "tokens_of s = [s]"
proof -
  have "takeWhile (\<lambda>c. \<not> is_space c) s = s"
    using assms by (metis takeWhile_dropWhile_id append_Nil2)
  then show ?thesis unfolding tokens_of.simps [of s] Let_def assms
    by (simp only: simp_thms if_True)
qed

lemma tokens_step:
  assumes "dropWhile (\<lambda>c. \<not> is_space c) s \<noteq> []"
  shows "tokens_of s = takeWhile (\<lambda>c. \<not> is_space c) s
           # tokens_of (dropWhile is_space (dropWhile (\<lambda>c. \<not> is_space c) s))"
  unfolding tokens_of.simps [of s] Let_def using assms by (simp only: if_False)

lemma split_tokens: "re_split_from rx_spaces p s = tokens_of s"
proof (induction s arbitrary: p rule: length_induct)
  case (1 s)
  let ?a = "takeWhile (\<lambda>c. \<not> is_space c) s" and ?b = "dropWhile (\<lambda>c. \<not> is_space c) s"
  show ?case
  proof (cases "?b = []")
    case True
    show ?thesis
      unfolding re_split_from.simps [of rx_spaces p s] tokens_last [OF True] scan_spaces Let_def True
      by (simp only: simp_thms if_True option.case)
  next
    case False
    then obtain c cs where c: "?b = c # cs" by (cases ?b) auto
    have "is_space c" using hd_dropWhile [of "\<lambda>c. \<not> is_space c" s] False unfolding c by simp
    then have "length (dropWhile is_space ?b) \<le> length cs"
      unfolding c using length_dropWhile_le [of is_space cs] by simp
    also have "\<dots> < length ?b" unfolding c by simp
    also have "\<dots> \<le> length s" by (rule length_dropWhile_le)
    finally have l: "length (dropWhile is_space ?b) < length s" .
    with 1 have "re_split_from rx_spaces q (dropWhile is_space ?b) = tokens_of (dropWhile is_space ?b)"
      for q by blast
    then show ?thesis
      unfolding re_split_from.simps [of rx_spaces p s] tokens_step [OF False] scan_spaces Let_def
      using False l by (simp only: if_False if_True option.case prod.case)
  qed
qed

lemma tokens_no_space: "t \<in> set (tokens_of s) \<Longrightarrow> \<forall>c \<in> set t. \<not> is_space c"
proof (induction s rule: length_induct)
  case (1 s)
  let ?a = "takeWhile (\<lambda>c. \<not> is_space c) s" and ?b = "dropWhile (\<lambda>c. \<not> is_space c) s"
  have a: "\<forall>c \<in> set ?a. \<not> is_space c" by (auto dest: set_takeWhileD)
  show ?case
  proof (cases "?b = []")
    case True
    then have "?a = s" by (metis takeWhile_dropWhile_id append_Nil2)
    with 1(2) a show ?thesis unfolding tokens_last [OF True] by simp
  next
    case False
    then obtain c cs where c: "?b = c # cs" by (cases ?b) auto
    have "is_space c" using hd_dropWhile [of "\<lambda>c. \<not> is_space c" s] False unfolding c by simp
    then have "length (dropWhile is_space ?b) \<le> length cs"
      unfolding c using length_dropWhile_le [of is_space cs] by simp
    also have "\<dots> < length ?b" unfolding c by simp
    also have "\<dots> \<le> length s" by (rule length_dropWhile_le)
    finally have l: "length (dropWhile is_space ?b) < length s" .
    from 1(2) have "t = ?a \<or> t \<in> set (tokens_of (dropWhile is_space ?b))"
      unfolding tokens_step [OF False] by simp
    with a l 1(1) show ?thesis by blast
  qed
qed

lemma metric_tokens: "last_numeric_token (re_split rx_spaces s) = metric_of s"
proof -
  have "\<forall>t \<in> set (rev (tokens_of s)). LF \<notin> set t"
    using tokens_no_space [of _ s] char_facts(6) by auto
  from find_chomp [OF this] show ?thesis
    unfolding last_numeric_token_def re_split_def split_tokens numeric_scan_find metric_of_def .
qed

lemma metric_empty: "metric_of [] = None"
  by (simp add: metric_of_def tokens_last numeric_literal_def)


lemma runk_Eps: "runk Eps F st = F st"
  by (simp add: runk_def)

lemma runk_Chrs:
  "runk (seqs (map Chr Ps)) F (p, s, g) =
     (if list_all2 (\<lambda>P c. P c) Ps (take (length Ps) s)
      then F (prev_after p (take (length Ps) s), drop (length Ps) s, g) else [])"
proof (induction Ps arbitrary: p s)
  case Nil
  show ?case by (simp add: runk_Eps)
next
  case (Cons P Ps)
  show ?case
  proof (cases Ps)
    case Nil
    then show ?thesis by (cases s) (simp_all add: runk_Chr)
  next
    case (Cons Q Qs)
    then have "runk (seqs (map Chr (P # Ps))) F = runk (Chr P) (runk (seqs (map Chr Ps)) F)"
      by (simp add: runk_Seq)
    then show ?thesis using Cons.IH by (cases s) (simp_all add: runk_Chr)
  qed
qed

lemma runk_Chrs_n:
  "length Ps = n \<Longrightarrow>
   runk (seqs (map Chr Ps)) F (p, s, g) =
     (if list_all2 (\<lambda>P c. P c) Ps (take n s)
      then F (prev_after p (take n s), drop n s, g) else [])"
  using runk_Chrs [of Ps F p s g] by simp

lemma runk_date:
  "runk rx_date F (p, s, g) =
     (if iso_date_text (take 10 s) then F (prev_after p (take 10 s), drop 10 s, g) else [])"
proof -
  have e: "rx_date = seqs (map Chr
       [\<lambda>c. c = CHR ''2'', \<lambda>c. c = CHR ''0'', is_digit, is_digit, \<lambda>c. c = CHR ''-'',
        is_digit, is_digit, \<lambda>c. c = CHR ''-'', is_digit, is_digit])"
    by (simp add: rx_date_def ch_def)
  show ?thesis unfolding e iso_date_text_def by (rule runk_Chrs_n) simp
qed

lemma runk_clock_tail:
  "runk (ch CHR '':'') (runk (Chr is_digit) (runk (Chr is_digit)
     (runk (ch CHR '':'') (runk (Chr is_digit) (runk (Chr is_digit) F))))) (p, s, g) =
   (if list_all2 (\<lambda>P c. P c)
         [\<lambda>c. c = CHR '':'', is_digit, is_digit, \<lambda>c. c = CHR '':'', is_digit, is_digit]
         (take 6 s)
    then F (prev_after p (take 6 s), drop 6 s, g) else [])"
proof -
  have e: "runk (ch CHR '':'') (runk (Chr is_digit) (runk (Chr is_digit)
     (runk (ch CHR '':'') (runk (Chr is_digit) (runk (Chr is_digit) F))))) =
     runk (seqs (map Chr
       [\<lambda>c. c = CHR '':'', is_digit, is_digit, \<lambda>c. c = CHR '':'', is_digit, is_digit])) F"
    by (simp add: runk_Seq ch_def)
  show ?thesis unfolding e by (rule runk_Chrs_n) simp
qed

lemma runk_clock:
  "runk (plus is_space) (runk (Chr is_digit) (runk (Opt (Chr is_digit))
     (runk (ch CHR '':'') (runk (Chr is_digit) (runk (Chr is_digit)
       (runk (ch CHR '':'') (runk (Chr is_digit) (runk (Chr is_digit) F)))))))) (p, s, g) =
   (case clock_time s of None \<Rightarrow> [] | Some (t, r) \<Rightarrow> F (prev_after p t, r, g))"
proof -
  let ?T = "runk (ch CHR '':'') (runk (Chr is_digit) (runk (Chr is_digit)
       (runk (ch CHR '':'') (runk (Chr is_digit) (runk (Chr is_digit) F)))))"
  have c: "rejects is_digit ?T"
    unfolding ch_def by (rule rejects_Chr) (auto simp: is_digit_def code_def)
  have d: "rejects is_space (runk (Chr is_digit) (runk (Opt (Chr is_digit)) ?T))"
    by (rule rejects_Chr) (rule space_not_digit)
  show ?thesis
    unfolding runk_plus [OF d] runk_digits12 [OF c] runk_clock_tail clock_time_def Let_def
    by simp
qed

lemma clock_time_append: "clock_time s = Some (t, r) \<Longrightarrow> s = t @ r"
proof -
  assume a: "clock_time s = Some (t, r)"
  let ?a = "dropWhile is_space s"
  let ?b = "dropWhile is_digit ?a"
  from a have t: "t = takeWhile is_space s @ takeWhile is_digit ?a @ take 6 ?b"
    and r: "r = drop 6 ?b"
    unfolding clock_time_def Let_def by (simp_all split: if_splits)
  have "s = takeWhile is_space s @ ?a" by simp
  also have "?a = takeWhile is_digit ?a @ ?b" by simp
  also have "?b = take 6 ?b @ drop 6 ?b" by simp
  finally show ?thesis unfolding t r by simp
qed

lemma prev_after_last: "d \<noteq> [] \<Longrightarrow> prev_after p d = Some (last d)"
  by (induction d arbitrary: p) auto

lemma iso_date_last:
  assumes "iso_date_text d"
  shows "length d = 10" "d \<noteq> []" "is_digit (last d)"
proof -
  from assms obtain c0 c1 c2 c3 c4 c5 c6 c7 c8 c9 where
    d: "d = [c0, c1, c2, c3, c4, c5, c6, c7, c8, c9]" and "is_digit c9"
    unfolding iso_date_text_def by (auto simp: list_all2_Cons1)
  then show "length d = 10" "d \<noteq> []" "is_digit (last d)" by simp_all
qed

lemma clock_time_last:
  assumes "clock_time s = Some (t, r)"
  shows "t \<noteq> []" "is_digit (last t)"
proof -
  let ?b = "dropWhile is_digit (dropWhile is_space s)"
  from assms have t: "t = (takeWhile is_space s @ takeWhile is_digit (dropWhile is_space s)) @ take 6 ?b"
    and m: "list_all2 (\<lambda>P c. P c)
         [\<lambda>c. c = CHR '':'', is_digit, is_digit, \<lambda>c. c = CHR '':'', is_digit, is_digit]
         (take 6 ?b)"
    unfolding clock_time_def Let_def by (simp_all split: if_splits)
  from m obtain c0 c1 c2 c3 c4 c5 where
    b: "take 6 ?b = [c0, c1, c2, c3, c4, c5]" and "is_digit c5"
    by (auto simp: list_all2_Cons1)
  then show "t \<noteq> []" "is_digit (last t)" unfolding t b by simp_all
qed

lemma runk_boundary_rest:
  assumes "LF \<notin> set s" "d \<noteq> []" "is_digit (last d)"
  shows "runk WordB (runk (Grp 2 (Star not_LF)) (runk Eol (\<lambda>x. [x]))) (prev_after p d, s, g) =
     (if word_after s then [] else [(prev_after p (d @ s), [], (2, s) # g)])"
proof -
  have "word_before (prev_after p d)"
    unfolding prev_after_last [OF assms(2)] word_before_def using digit_word [OF assms(3)] by simp
  then show ?thesis unfolding runk_WordB runk_rest [OF assms(1)] by simp
qed


lemma match_iso_line:
  assumes "LF \<notin> set line"
  shows "re_match rx_iso_line line =
           map_option (\<lambda>(d, r). [(2, r), (1, d)]) (iso_split line)"
proof -
  let ?W = "runk WordB (runk (Grp 2 (Star not_LF)) (runk Eol (\<lambda>x. [x])))"
  let ?T = "seqs [plus is_space, Chr is_digit, Opt (Chr is_digit), ch CHR '':'',
                  Chr is_digit, Chr is_digit, ch CHR '':'', Chr is_digit, Chr is_digit]"
  let ?G = "\<lambda>(p', s', g'). runk (Opt ?T) ?W (p', s', (1, take (length line - length s') line) # g')"
  let ?R = "run rx_iso_line (None, line, [])"
  let ?d = "take 10 line" and ?r = "drop 10 line"
  have t: "runk ?T ?W (p, s, g) =
      (case clock_time s of None \<Rightarrow> [] | Some (t, r) \<Rightarrow> ?W (prev_after p t, r, g))" for p s g
    unfolding seqs.simps runk_Seq by (rule runk_clock)
  have "?R = runk rx_iso_line (\<lambda>x. [x]) (None, line, [])" by (rule run_runk)
  also have "\<dots> = runk Bol (runk (Grp 1 rx_date) (runk (Opt ?T) ?W)) (None, line, [])"
    unfolding rx_iso_line_def seqs.simps runk_Seq ..
  also have "\<dots> = runk (Grp 1 rx_date) (runk (Opt ?T) ?W) (None, line, [])"
    by (rule runk_Bol_None)
  also have "\<dots> = runk rx_date ?G (None, line, [])" by (rule runk_Grp)
  also have "\<dots> = (if iso_date_text ?d then ?G (prev_after None ?d, ?r, []) else [])"
    by (rule runk_date)
  finally have R: "?R = (if iso_date_text ?d then ?G (prev_after None ?d, ?r, []) else [])" .
  show ?thesis
  proof (cases "iso_date_text ?d")
    case False
    then show ?thesis unfolding re_match_first R iso_split_def by simp
  next
    case True
    note d = iso_date_last [OF True]
    from d(1) have "10 \<le> length line" by simp
    then have g1: "take (length line - length ?r) line = ?d" by simp
    have lfr: "LF \<notin> set ?r" using assms by (meson in_set_dropD)
    let ?g = "[(1::nat, ?d)]"
    let ?pd = "prev_after None ?d"
    have "?R = ?G (?pd, ?r, [])" unfolding R using True by simp
    also have "\<dots> = runk (Opt ?T) ?W (?pd, ?r, ?g)" unfolding g1 [symmetric] by simp
    also have "\<dots> = runk ?T ?W (?pd, ?r, ?g) @ ?W (?pd, ?r, ?g)" by (rule runk_Opt)
    finally have R2: "?R = runk ?T ?W (?pd, ?r, ?g) @ ?W (?pd, ?r, ?g)" .
    have base: "?W (?pd, ?r, ?g) =
        (if word_after ?r then [] else [(prev_after None (?d @ ?r), [], [(2, ?r), (1, ?d)])])"
      using runk_boundary_rest [OF lfr d(2) d(3), of None ?g] by simp
    show ?thesis
    proof (cases "clock_time ?r")
      case None
      have "?R = ?W (?pd, ?r, ?g)" unfolding R2 t by (simp only: None option.case append_Nil)
      then have fo: "first_outcome ?R =
          (if word_after ?r then None
           else Some (prev_after None (?d @ ?r), [], [(2, ?r), (1, ?d)]))"
        unfolding base by simp
      have sp: "iso_split line = (if word_after ?r then None else Some (?d, ?r))"
        unfolding iso_split_def by (simp add: True None Let_def)
      show ?thesis unfolding re_match_first fo sp by simp
    next
      case (Some a)
      obtain tm r' where a: "a = (tm, r')" by (cases a)
      note ct = Some [unfolded a]
      have "?r = tm @ r'" by (rule clock_time_append [OF ct])
      then have lf': "LF \<notin> set r'" using lfr by auto
      note tl = clock_time_last [OF ct]
      have "?W (prev_after ?pd tm, r', ?g) =
          (if word_after r' then [] else [(prev_after ?pd (tm @ r'), [], [(2, r'), (1, ?d)])])"
        using runk_boundary_rest [OF lf' tl, of ?pd ?g] by simp
      moreover have "?R = ?W (prev_after ?pd tm, r', ?g) @ ?W (?pd, ?r, ?g)"
        unfolding R2 t by (simp only: ct option.case prod.case)
      ultimately have fo: "first_outcome ?R =
          (if word_after r'
           then (if word_after ?r then None
                 else Some (prev_after None (?d @ ?r), [], [(2, ?r), (1, ?d)]))
           else Some (prev_after ?pd (tm @ r'), [], [(2, r'), (1, ?d)]))"
        unfolding base by (simp del: One_nat_def)
      have sp: "iso_split line =
          (if word_after r' then (if word_after ?r then None else Some (?d, ?r))
           else Some (?d, r'))"
        unfolding iso_split_def by (simp add: True ct Let_def)
      show ?thesis unfolding re_match_first fo sp by simp
    qed
  qed
qed




lemma group_simps:
  "group [(2, r), (1, d)] 1 = d" "group [(2, r), (1, d)] 2 = r"
  by (simp_all add: group_def)

lemma metric_rest:
  "last_numeric_token (if u \<noteq> [] then re_split rx_spaces u else []) = metric_of u"
proof (cases "u = []")
  case True
  then show ?thesis by (simp add: metric_empty last_numeric_token_def)
next
  case False
  then show ?thesis by (simp add: metric_tokens)
qed

lemma parse_line_iso:
  assumes "LF \<notin> set line" "iso_split line = Some (d, r)"
  shows "parse_line line =
     [\<lparr>date_raw = d, date_parsed = try_parse_date d, rest = strip r, IVT = metric_of (strip r)\<rparr>]"
proof -
  have "re_match rx_iso_line line = Some [(2, r), (1, d)]"
    unfolding match_iso_line [OF assms(1)] assms(2) by simp
  then show ?thesis
    unfolding parse_line_def by (simp add: Let_def group_simps metric_rest del: One_nat_def)
qed

lemma iso_date_digits:
  assumes "iso_date_text (take 10 line)"
  shows "3 \<le> length (takeWhile is_digit line)"
proof -
  from assms obtain c0 c1 c2 c3 c4 c5 c6 c7 c8 c9 where
    d: "take 10 line = [c0, c1, c2, c3, c4, c5, c6, c7, c8, c9]"
    and c: "c0 = CHR ''2''" "c1 = CHR ''0''" "is_digit c2"
    unfolding iso_date_text_def by (auto simp: list_all2_Cons1)
  have "line = take 10 line @ drop 10 line" by simp
  then obtain rest where "line = c0 # c1 # c2 # rest" unfolding d by auto
  moreover have "is_digit c0" "is_digit c1" unfolding c by (simp_all add: is_digit_def code_def)
  ultimately show ?thesis using c(3) by simp
qed

lemma phrase_not_iso:
  assumes "phrase_split line \<noteq> None"
  shows "iso_split line = None"
proof -
  from assms have "number_word line \<noteq> None" unfolding phrase_split_def by (auto split: option.splits)
  then have "length (takeWhile is_digit line) \<le> 2"
    unfolding number_word_def Let_def by (simp split: if_splits)
  with iso_date_digits [of line] have "\<not> iso_date_text (take 10 line)" by fastforce
  then show ?thesis unfolding iso_split_def by simp
qed


lemma parse_line_phrase:
  assumes "LF \<notin> set line" "phrase_split line = Some (d, r)"
  shows "parse_line line =
     [\<lparr>date_raw = d, date_parsed = None, rest = r, IVT = metric_of r\<rparr>]"
proof -
  have "iso_split line = None" using phrase_not_iso assms(2) by simp
  then have 1: "re_match rx_iso_line line = None"
    unfolding match_iso_line [OF assms(1)] by simp
  have 2: "re_match rx_phrase_line line = Some [(2, r), (1, d)]"
    unfolding match_phrase_line [OF assms(1)] assms(2) by simp
  show ?thesis
    unfolding parse_line_def 1 2
    by (simp add: Let_def group_simps metric_tokens del: One_nat_def)
qed







lemma takeWhile_class:
  "list_all P u \<Longrightarrow> v = [] \<or> \<not> P (hd v) \<Longrightarrow>
     takeWhile P (u @ v) = u \<and> dropWhile P (u @ v) = v"
proof (induction u)
  case Nil
  then show ?case by (cases v) auto
next
  case (Cons d ds)
  then show ?case by simp
qed

lemma number_word_shape:
  assumes "list_all is_digit n" "n \<noteq> []" "length n \<le> 2" "list_all is_space ws" "ws \<noteq> []"
    "list_all is_word w" "w \<noteq> []" "v = [] \<or> \<not> is_word (hd v)"
  shows "number_word (n @ ws @ w @ v) = Some (n @ ws @ w, v)"
proof -
  from assms(4,5) have "\<not> is_digit (hd (ws @ w @ v))"
    by (cases ws) (auto simp: space_not_digit)
  with takeWhile_class [OF assms(1), of "ws @ w @ v"]
  have 1: "takeWhile is_digit (n @ ws @ w @ v) = n" "dropWhile is_digit (n @ ws @ w @ v) = ws @ w @ v"
    by simp_all
  from assms(6,7) have "\<not> is_space (hd (w @ v))" by (cases w) (auto simp: word_not_space)
  with takeWhile_class [OF assms(4), of "w @ v"]
  have 2: "takeWhile is_space (ws @ w @ v) = ws" "dropWhile is_space (ws @ w @ v) = w @ v"
    by simp_all
  from takeWhile_class [OF assms(6) assms(8)]
  have 3: "takeWhile is_word (w @ v) = w" "dropWhile is_word (w @ v) = v" by simp_all
  show ?thesis unfolding number_word_def Let_def 1 2 3 using assms(2,3,5,7) by simp
qed





text \<open>
  C6. The pattern of the date phrases matches a line exactly when the line starts with a
  date phrase followed by whitespace. The record of such a line has the phrase as its
  date text, no parsed date, the text after that whitespace as its rest, and the value of
  the last numeric token of the rest as its metric. For the line
  \<open>11 Sep to 15 Sep 1191603 1189884 0.00427\<close> the date text is \<open>11 Sep to 15 Sep\<close>, the
  parsed date is empty and the metric is 0.00427.
\<close>

theorem phrase_rule_record:
  "(LF \<notin> set line \<longrightarrow> (re_match rx_phrase_line line = None \<longleftrightarrow> phrase_split line = None))
   \<and> (LF \<notin> set line \<and> phrase_split line = Some (d, r) \<longrightarrow>
        parse_line line = [\<lparr>date_raw = d, date_parsed = None, rest = r, IVT = metric_of r\<rparr>])
   \<and> parse_line ''11 Sep to 15 Sep 1191603 1189884 0.00427'' =
        [\<lparr>date_raw = ''11 Sep to 15 Sep'', date_parsed = None,
          rest = ''1191603 1189884 0.00427'', IVT = Some (427 / 100000)\<rparr>]"
proof (intro conjI impI)
  assume "LF \<notin> set line"
  from match_phrase_line [OF this]
  show "re_match rx_phrase_line line = None \<longleftrightarrow> phrase_split line = None" by simp
next
  assume "LF \<notin> set line \<and> phrase_split line = Some (d, r)"
  then show "parse_line line = [\<lparr>date_raw = d, date_parsed = None, rest = r, IVT = metric_of r\<rparr>]"
    using parse_line_phrase by blast
next
  show "parse_line ''11 Sep to 15 Sep 1191603 1189884 0.00427'' =
        [\<lparr>date_raw = ''11 Sep to 15 Sep'', date_parsed = None,
          rest = ''1191603 1189884 0.00427'', IVT = Some (427 / 100000)\<rparr>]"
    by code_simp
qed

lemma example_phrase_line:
  "LF \<notin> set ''3 Oct 12 0.5'' \<and> phrase_split ''3 Oct 12 0.5'' = Some (''3 Oct'', ''12 0.5'')"
  "metric_of ''12 0.5'' = Some (1 / 2)"
  by code_simp+

theorem phrase_rule_record_witness:
  "parse_line ''3 Oct 12 0.5'' =
     [\<lparr>date_raw = ''3 Oct'', date_parsed = None, rest = ''12 0.5'', IVT = Some (1 / 2)\<rparr>]"
  using phrase_rule_record [of "''3 Oct 12 0.5''" "''3 Oct''" "''12 0.5''",
      THEN conjunct2, THEN conjunct1, THEN mp, OF example_phrase_line(1)]
  unfolding example_phrase_line(2) .

text \<open>
  C10. A line that starts with a number of one or two digits, whitespace, any word and
  whitespace gives the record of the date phrases, whatever the word is and whatever
  follows: its date text is the number and the word, extended by \<open>to\<close>, a number and a word
  when these follow and whitespace comes after them; its parsed date is empty; its rest
  is the text after the whitespace that follows the date text.
\<close>

theorem phrase_rule_any_word:
  "list_all is_digit n \<and> n \<noteq> [] \<and> length n \<le> 2 \<and> list_all is_space ws1 \<and> ws1 \<noteq> []
     \<and> list_all is_word w \<and> w \<noteq> [] \<and> list_all is_space ws2 \<and> ws2 \<noteq> []
     \<and> LF \<notin> set (ws1 @ ws2 @ r) \<longrightarrow>
   (\<exists>d u. parse_line (n @ ws1 @ w @ ws2 @ r) =
             [\<lparr>date_raw = d, date_parsed = None, rest = u, IVT = metric_of u\<rparr>]
        \<and> phrase_split (n @ ws1 @ w @ ws2 @ r) = Some (d, u)
        \<and> ((d = n @ ws1 @ w \<and> u = dropWhile is_space r)
           \<or> (\<exists>e r'. to_extension (ws2 @ r) = Some (e, r') \<and> r' \<noteq> [] \<and> is_space (hd r')
                 \<and> d = n @ ws1 @ w @ e \<and> u = dropWhile is_space r')))"
proof
  assume a: "list_all is_digit n \<and> n \<noteq> [] \<and> length n \<le> 2 \<and> list_all is_space ws1 \<and> ws1 \<noteq> []
     \<and> list_all is_word w \<and> w \<noteq> [] \<and> list_all is_space ws2 \<and> ws2 \<noteq> []
     \<and> LF \<notin> set (ws1 @ ws2 @ r)"
  let ?line = "n @ ws1 @ w @ ws2 @ r"
  from a have sp: "ws2 @ r \<noteq> []" "is_space (hd (ws2 @ r))" by (cases ws2; simp)+
  then have "\<not> is_word (hd (ws2 @ r))" by (simp add: space_not_word)
  with a have nw: "number_word ?line = Some (n @ ws1 @ w, ws2 @ r)"
    using number_word_shape [of n ws1 w "ws2 @ r"] by simp
  have "LF \<notin> set n" using a digit_neq by (auto simp: list_all_iff)
  moreover have "LF \<notin> set w" using a word_not_space char_facts(6) by (auto simp: list_all_iff)
  ultimately have lf: "LF \<notin> set ?line" using a by auto
  from a have dw: "dropWhile is_space (ws2 @ r) = dropWhile is_space r"
    by (simp add: dropWhile_append list_all_iff)
  show "\<exists>d u. parse_line ?line =
             [\<lparr>date_raw = d, date_parsed = None, rest = u, IVT = metric_of u\<rparr>]
        \<and> phrase_split ?line = Some (d, u)
        \<and> ((d = n @ ws1 @ w \<and> u = dropWhile is_space r)
           \<or> (\<exists>e r'. to_extension (ws2 @ r) = Some (e, r') \<and> r' \<noteq> [] \<and> is_space (hd r')
                 \<and> d = n @ ws1 @ w @ e \<and> u = dropWhile is_space r'))"
  proof (cases "\<exists>e r'. to_extension (ws2 @ r) = Some (e, r') \<and> r' \<noteq> [] \<and> is_space (hd r')")
    case True
    then obtain e r' where e: "to_extension (ws2 @ r) = Some (e, r')" "r' \<noteq> []" "is_space (hd r')"
      by blast
    then have ps: "phrase_split ?line = Some ((n @ ws1 @ w) @ e, dropWhile is_space r')"
      unfolding phrase_split_def nw by (simp add: Let_def)
    from parse_line_phrase [OF lf ps] ps e show ?thesis by auto
  next
    case False
    then have ps: "phrase_split ?line = Some (n @ ws1 @ w, dropWhile is_space r)"
      unfolding phrase_split_def nw using sp dw by (auto simp: Let_def split: option.splits)
    from parse_line_phrase [OF lf ps] ps show ?thesis by auto
  qed
qed

lemma example_any_word:
  "list_all is_digit ''3'' \<and> ''3'' \<noteq> [] \<and> length ''3'' \<le> 2 \<and> list_all is_space '' ''
     \<and> '' '' \<noteq> [] \<and> list_all is_word ''apples'' \<and> ''apples'' \<noteq> [] \<and> list_all is_space '' ''
     \<and> '' '' \<noteq> [] \<and> LF \<notin> set ('' '' @ '' '' @ ''2025-01-01 7'')"
  "phrase_split (''3'' @ '' '' @ ''apples'' @ '' '' @ ''2025-01-01 7'') =
     Some (''3 apples'', ''2025-01-01 7'')"
  "metric_of ''2025-01-01 7'' = Some 7"
  by code_simp+

theorem phrase_rule_any_word_witness:
  "parse_line ''3 apples 2025-01-01 7'' =
     [\<lparr>date_raw = ''3 apples'', date_parsed = None, rest = ''2025-01-01 7'', IVT = Some 7\<rparr>]"
proof -
  from phrase_rule_any_word [of "''3''" "'' ''" "''apples''" "'' ''" "''2025-01-01 7''",
      THEN mp, OF example_any_word(1)]
  obtain d u where "parse_line (''3'' @ '' '' @ ''apples'' @ '' '' @ ''2025-01-01 7'') =
             [\<lparr>date_raw = d, date_parsed = None, rest = u, IVT = metric_of u\<rparr>]"
    "phrase_split (''3'' @ '' '' @ ''apples'' @ '' '' @ ''2025-01-01 7'') = Some (d, u)"
    by blast
  then show ?thesis unfolding example_any_word(2) using example_any_word(3) by simp
qed

text \<open>
  C1. A line that starts with a date text \<open>20dd-dd-dd\<close> after which a word does not go on
  gives one record: its date text is that date text, its parsed date is the calendar
  date it names, its rest is the text after the date, or after the clock time that
  follows the date when there is one and a word does not go on after it, without the
  whitespace around it, and its metric is the value of the last numeric token of the
  rest. For the line \<open>2025-09-12 0:00:00 foo bar 0.00427\<close> the date text is
  \<open>2025-09-12\<close> and the metric is 0.00427. A date of another century at the start of a
  line is not a date text.
\<close>

theorem iso_rule_record:
  "(LF \<notin> set line \<longrightarrow> (re_match rx_iso_line line = None \<longleftrightarrow> iso_split line = None))
   \<and> (LF \<notin> set line \<and> iso_split line = Some (d, r) \<longrightarrow>
        parse_line line =
          [\<lparr>date_raw = d, date_parsed = try_parse_date d, rest = strip r,
            IVT = metric_of (strip r)\<rparr>])
   \<and> (iso_date_text d \<and> \<not> word_after r \<longrightarrow>
        (\<exists>r'. iso_split (d @ r) = Some (d, r')
            \<and> (r' = r \<or> (\<exists>t. clock_time r = Some (t, r') \<and> r = t @ r' \<and> \<not> word_after r'))))
   \<and> parse_line ''2025-09-12 0:00:00 foo bar 0.00427'' =
        [\<lparr>date_raw = ''2025-09-12'', date_parsed = Some (2025, 9, 12),
          rest = ''foo bar 0.00427'', IVT = Some (427 / 100000)\<rparr>]"
proof (intro conjI impI)
  assume "LF \<notin> set line"
  from match_iso_line [OF this]
  show "re_match rx_iso_line line = None \<longleftrightarrow> iso_split line = None" by simp
next
  assume "LF \<notin> set line \<and> iso_split line = Some (d, r)"
  then show "parse_line line =
          [\<lparr>date_raw = d, date_parsed = try_parse_date d, rest = strip r,
            IVT = metric_of (strip r)\<rparr>]"
    using parse_line_iso by blast
next
  assume a: "iso_date_text d \<and> \<not> word_after r"
  then have l: "length d = 10" using iso_date_last(1) by blast
  then have td: "take 10 (d @ r) = d" "drop 10 (d @ r) = r" by simp_all
  show "\<exists>r'. iso_split (d @ r) = Some (d, r')
            \<and> (r' = r \<or> (\<exists>t. clock_time r = Some (t, r') \<and> r = t @ r' \<and> \<not> word_after r'))"
  proof (cases "\<exists>t r'. clock_time r = Some (t, r') \<and> \<not> word_after r'")
    case True
    then obtain t r' where c: "clock_time r = Some (t, r')" "\<not> word_after r'" by blast
    then have "iso_split (d @ r) = Some (d, r')"
      unfolding iso_split_def td using a by (simp add: Let_def)
    with c clock_time_append [OF c(1)] show ?thesis by blast
  next
    case False
    then have "iso_split (d @ r) = Some (d, r)"
      unfolding iso_split_def td using a by (auto simp: Let_def split: option.splits)
    then show ?thesis by blast
  qed
next
  show "parse_line ''2025-09-12 0:00:00 foo bar 0.00427'' =
        [\<lparr>date_raw = ''2025-09-12'', date_parsed = Some (2025, 9, 12),
          rest = ''foo bar 0.00427'', IVT = Some (427 / 100000)\<rparr>]"
    by code_simp
qed

lemma example_iso_line:
  "LF \<notin> set ''2024-02-29 12:30:00 clicks 17 -0.5''
     \<and> iso_split ''2024-02-29 12:30:00 clicks 17 -0.5'' = Some (''2024-02-29'', '' clicks 17 -0.5'')"
  "try_parse_date ''2024-02-29'' = Some (2024, 2, 29)"
  "strip '' clicks 17 -0.5'' = ''clicks 17 -0.5''"
  "metric_of ''clicks 17 -0.5'' = Some (- (1 / 2))"
  by code_simp+

theorem iso_rule_record_witness:
  "parse_line ''2024-02-29 12:30:00 clicks 17 -0.5'' =
     [\<lparr>date_raw = ''2024-02-29'', date_parsed = Some (2024, 2, 29),
       rest = ''clicks 17 -0.5'', IVT = Some (- (1 / 2))\<rparr>]"
  using iso_rule_record [of "''2024-02-29 12:30:00 clicks 17 -0.5''" "''2024-02-29''"
      "'' clicks 17 -0.5''", THEN conjunct2, THEN conjunct1, THEN mp, OF example_iso_line(1)]
  unfolding example_iso_line(2,3,4) .

theorem iso_rule_other_century:
  "parse_line ''1999-01-01 5'' =
     [\<lparr>date_raw = ''1999-01-01 5'', date_parsed = None, rest = ''1999-01-01 5'',
       IVT = Some 5\<rparr>]"
  by code_simp

section \<open>Properties of the section locator\<close>

lemma first_groups_simps [simp]:
  "first_groups [] = None" "first_groups ((p, s, g) # xs) = Some g"
  by (simp_all add: first_groups_def)

lemma first_groups_append:
  "first_groups (xs @ ys) = (case first_groups xs of Some g \<Rightarrow> Some g | None \<Rightarrow> first_groups ys)"
  by (cases xs) (auto simp: first_groups_def)

lemma first_groups_concat:
  "first_groups (concat (map f xs)) = first_some (\<lambda>x. first_groups (f x)) xs"
  by (induction xs) (simp_all add: first_groups_append split: option.splits)

lemma first_some_map:
  "first_some (\<lambda>x. map_option h (f x)) xs = map_option h (first_some f xs)"
  by (induction xs) (simp_all split: option.splits)

lemma first_some_cong:
  "(\<And>x. x \<in> set xs \<Longrightarrow> f x = g x) \<Longrightarrow> first_some f xs = first_some g xs"
  by (induction xs) (simp_all split: option.splits)

lemma scan_groups:
  "map_option (\<lambda>(pre, p', s', g). g) (scan r p s) =
     (case first_groups (run r (p, s, [])) of
        Some g \<Rightarrow> Some g
      | None \<Rightarrow>
          (case s of
             [] \<Rightarrow> None
           | c # cs \<Rightarrow> map_option (\<lambda>(pre, p', s', g). g) (scan r (Some c) cs)))"
proof (cases "run r (p, s, [])")
  case Nil
  have "scan r p s =
      (case s of [] \<Rightarrow> None
       | c # cs \<Rightarrow> map_option (\<lambda>(pre, st). (c # pre, st)) (scan r (Some c) cs))"
    by (subst scan.simps) (simp only: Nil list.case)
  then show ?thesis using Nil
    by (cases s)
       (simp_all add: option.map_comp comp_def case_prod_unfold del: run.simps scan.simps)
next
  case (Cons st sts)
  obtain p' s' g where st: "st = (p', s', g)" by (cases st)
  have "scan r p s = Some ([], st)"
    by (subst scan.simps) (simp only: Cons list.case)
  then show ?thesis using Cons st by (simp del: run.simps scan.simps)
qed

lemma re_search_first:
  assumes "\<And>p u. first_groups (run r (p, u, [])) = f u"
  shows "re_search r s = first_some f (tails s)"
proof -
  have "map_option (\<lambda>(pre, p', s', g). g) (scan r p s) = first_some f (tails s)" for p
  proof (induction s arbitrary: p)
    case Nil
    show ?case unfolding scan_groups [of r p "[]"] assms by (simp split: option.splits)
  next
    case (Cons c cs)
    show ?case unfolding scan_groups [of r p "c # cs"] assms
      using Cons.IH [of "Some c"] by (simp split: option.splits)
  qed
  then show ?thesis unfolding re_search_def .
qed

lemma run_Lazy_splits:
  "run (Lazy any_char) (p, s, g) = map (\<lambda>(u, v). (prev_after p u, v, g)) (splits s)"
proof -
  have "star_lazy any_char p s = map (\<lambda>(u, v). (prev_after p u, v)) (splits s)"
    by (induction s arbitrary: p) (simp_all add: any_char_def comp_def case_prod_beta)
  then show ?thesis by (simp add: comp_def case_prod_beta)
qed

lemma splits_append: "(u, v) \<in> set (splits s) \<Longrightarrow> s = u @ v"
  by (induction s arbitrary: u v) auto

lemma run_Grp_Lazy:
  "run (Grp n (Lazy any_char)) (p, s, g) =
     map (\<lambda>(u, v). (prev_after p u, v, (n, u) # g)) (splits s)"
proof -
  have "run (Grp n (Lazy any_char)) (p, s, g) =
      map (\<lambda>(u, v). (prev_after p u, v, (n, take (length s - length v) s) # g)) (splits s)"
    unfolding run.simps(7) run_Lazy_splits by (simp add: comp_def case_prod_beta)
  also have "\<dots> = map (\<lambda>(u, v). (prev_after p u, v, (n, u) # g)) (splits s)"
    by (rule map_cong) (auto dest: splits_append)
  finally show ?thesis .
qed


lemma daily_lower: "map lower ''Daily Data'' = ''daily data''"
  by code_simp

lemma hourly_lower: "map lower ''Hourly Data'' = ''hourly data''"
  by code_simp

lemma runk_daily:
  "runk (lit_ci ''Daily Data'') F (p, s, g) =
     (if map lower (take 10 s) = ''daily data''
      then F (prev_after p (take 10 s), drop 10 s, g) else [])"
  by (rule runk_lit) (simp, rule daily_lower)

lemma runk_hourly:
  "runk (lit_ci ''Hourly Data'') F (p, s, g) =
     (if map lower (take 11 s) = ''hourly data''
      then F (prev_after p (take 11 s), drop 11 s, g) else [])"
  by (rule runk_lit) (simp, rule hourly_lower)

lemma rejects_hourly: "rejects is_space (runk (lit_ci ''Hourly Data'') F)"
proof -
  have "runk (lit_ci ''Hourly Data'') F (p, c # cs, g) = []" if "is_space c" for p c cs g
  proof -
    have "lower c \<noteq> CHR ''h''"
    proof
      assume "lower c = CHR ''h''"
      then have "is_space CHR ''h''" using that space_lower by metis
      then show False by (simp add: is_space_def code_def)
    qed
    then have ne: "map lower (take 11 (c # cs)) \<noteq> ''hourly data''" by auto
    show ?thesis unfolding runk_hourly if_not_P [OF ne] ..
  qed
  then show ?thesis unfolding rejects_def by blast
qed

lemma run_end_marker:
  "first_groups (runk (ch LF) (runk (Star is_space) (runk (lit_ci ''Hourly Data'') (\<lambda>x. [x])))
     (p, s, g)) = (if end_at s then Some g else None)"
proof (cases s)
  case Nil
  then show ?thesis by (simp add: runk_ch end_at_def)
next
  case (Cons c cs)
  show ?thesis unfolding Cons runk_ch runk_Star [OF rejects_hourly] runk_hourly end_at_def
    by simp
qed

lemma runk_ws_LF:
  "runk (Star is_space) (runk (ch LF) L) (p, s, g) =
     concat (map (\<lambda>v. L (Some LF, v, g)) (after_LFs s))"
proof (induction s arbitrary: p)
  case Nil
  show ?case by (simp add: runk_def ch_def)
next
  case (Cons c cs)
  have "runk (Star is_space) (runk (ch LF) L) (p, c # cs, g) =
          (if is_space c then runk (Star is_space) (runk (ch LF) L) (Some c, cs, g) else [])
          @ runk (ch LF) L (p, c # cs, g)"
    by (simp add: runk_def)
  then show ?case unfolding Cons.IH runk_ch using char_facts(6) by auto
qed

lemma lazy_upto_end:
  assumes "\<And>q v g'. first_groups (E (q, v, g')) = (if end_at v then Some g' else None)"
  shows "first_groups (concat (map (\<lambda>(u, v). E (P u, v, (n, A u) # g)) (splits s))) =
           map_option (\<lambda>u. (n, A u) # g) (upto_end s)"
proof (induction s arbitrary: P A)
  case Nil
  show ?case by (simp add: first_groups_append assms end_at_def)
next
  case (Cons c cs)
  have "concat (map (\<lambda>(u, v). E (P u, v, (n, A u) # g)) (splits (c # cs))) =
      E (P [], c # cs, (n, A []) # g)
      @ concat (map (\<lambda>(u, v). E (P (c # u), v, (n, A (c # u)) # g)) (splits cs))"
    by (simp add: comp_def case_prod_unfold)
  then show ?case
    using Cons.IH [of "\<lambda>u. P (c # u)" "\<lambda>u. A (c # u)"]
    by (simp add: first_groups_append assms option.map_comp comp_def)
qed

lemma section_between:
  "first_groups (run rx_daily_hourly (p, s, [])) = map_option (\<lambda>x. [(1, x)]) (between_at s)"
proof -
  let ?E = "runk (ch LF) (runk (Star is_space) (runk (lit_ci ''Hourly Data'') (\<lambda>x. [x])))"
  let ?L = "runk (Grp 1 (Lazy any_char)) ?E"
  have L: "first_groups (?L (q, v, g)) = map_option (\<lambda>u. (1, u) # g) (upto_end v)" for q v g
  proof -
    have "?L (q, v, g) = concat (map (\<lambda>(u, w). ?E (prev_after q u, w, (1, u) # g)) (splits v))"
      unfolding runk_def [of "Grp 1 (Lazy any_char)"] run_Grp_Lazy
      by (simp add: comp_def case_prod_unfold del: One_nat_def)
    then show ?thesis
      using lazy_upto_end [of ?E "\<lambda>u. prev_after q u" 1 "\<lambda>u. u" g v, OF run_end_marker]
      by simp
  qed
  have "run rx_daily_hourly (p, s, []) = runk rx_daily_hourly (\<lambda>x. [x]) (p, s, [])"
    by (rule run_runk)
  also have "\<dots> = runk (lit_ci ''Daily Data'') (runk (Star is_space) (runk (ch LF) ?L)) (p, s, [])"
    unfolding rx_daily_hourly_def seqs.simps runk_Seq ..
  also have "\<dots> = (if map lower (take 10 s) = ''daily data''
      then concat (map (\<lambda>v. ?L (Some LF, v, [])) (after_LFs (drop 10 s))) else [])"
    unfolding runk_daily runk_ws_LF ..
  finally show ?thesis
    unfolding between_at_def
    by (simp add: first_groups_concat L first_some_map del: One_nat_def)
qed


lemma after_last_LFs:
  "after_last_LF s = (case after_LFs s of [] \<Rightarrow> None | v # _ \<Rightarrow> Some v)"
  by (induction s) (auto split: list.splits option.splits)

lemma section_after:
  "first_groups (run rx_daily (p, s, [])) = map_option (\<lambda>x. [(1, x)]) (after_start s)"
proof -
  let ?L = "runk (Grp 1 (Star any_char)) (\<lambda>x. [x])"
  have L: "first_groups (?L (q, v, g)) = Some ((1, v) # g)" for q v g
  proof -
    from star_first [of any_char q v g] obtain xs where
      "run (Star any_char) (q, v, g) =
         (prev_after q (takeWhile any_char v), dropWhile any_char v, g) # xs" ..
    moreover have "takeWhile any_char v = v" "dropWhile any_char v = []"
      by (simp_all add: any_char_def)
    ultimately have "run (Star any_char) (q, v, g) = (prev_after q v, [], g) # xs" by simp
    then show ?thesis unfolding run_runk [symmetric] run.simps(7) by (simp del: One_nat_def)
  qed
  have "run rx_daily (p, s, []) = runk rx_daily (\<lambda>x. [x]) (p, s, [])" by (rule run_runk)
  also have "\<dots> = runk (lit_ci ''Daily Data'') (runk (Star is_space) (runk (ch LF) ?L)) (p, s, [])"
    unfolding rx_daily_def seqs.simps runk_Seq ..
  also have "\<dots> = (if map lower (take 10 s) = ''daily data''
      then concat (map (\<lambda>v. ?L (Some LF, v, [])) (after_LFs (drop 10 s))) else [])"
    unfolding runk_daily runk_ws_LF ..
  finally have F: "first_groups (run rx_daily (p, s, [])) =
      (if map lower (take 10 s) = ''daily data''
       then first_some (\<lambda>v. Some [(1, v)]) (after_LFs (drop 10 s)) else None)"
    by (simp add: first_groups_concat L del: One_nat_def)
  show ?thesis unfolding F after_start_def after_last_LFs
    by (cases "after_LFs (drop 10 s)") (simp_all del: One_nat_def)
qed

lemma group_one: "group [(n, x)] n = x"
  by (simp add: group_def)

lemma find_daily_section_of: "find_daily_section block = section_of block"
proof -
  have 1: "re_search rx_daily_hourly block =
      map_option (\<lambda>x. [(1, x)]) (first_some between_at (tails block))"
    unfolding first_some_map [symmetric] by (rule re_search_first) (rule section_between)
  have 2: "re_search rx_daily block =
      map_option (\<lambda>x. [(1, x)]) (first_some after_start (tails block))"
    unfolding first_some_map [symmetric] by (rule re_search_first) (rule section_after)
  show ?thesis unfolding find_daily_section_def section_of_def 1 2
    by (simp add: group_one split: option.splits)
qed

lemma first_some_mem: "first_some f xs = Some y \<Longrightarrow> \<exists>x \<in> set xs. f x = Some y"
  by (induction xs) (auto split: option.splits)

lemma first_some_None: "first_some f xs = None \<longleftrightarrow> (\<forall>x \<in> set xs. f x = None)"
  by (induction xs) (auto split: option.splits)

lemma tails_mem: "u \<in> set (tails s) \<Longrightarrow> \<exists>pre. s = pre @ u"
proof (induction s)
  case Nil
  then show ?case by simp
next
  case (Cons c cs)
  then consider "u = c # cs" | "u \<in> set (tails cs)" by auto
  then show ?case
  proof cases
    case 1
    then show ?thesis by simp
  next
    case 2
    with Cons.IH obtain pre where "cs = pre @ u" by blast
    then show ?thesis by (intro exI [of _ "c # pre"]) simp
  qed
qed

lemma after_LFs_mem:
  "t \<in> set (after_LFs s) \<Longrightarrow> \<exists>ws. s = ws @ t \<and> after_last_LF ws = Some []"
proof (induction s)
  case Nil
  then show ?case by simp
next
  case (Cons c cs)
  from Cons.prems have sp: "is_space c" by (simp split: if_splits)
  from Cons.prems sp consider "t \<in> set (after_LFs cs)" | "c = LF" "t = cs"
    by (auto split: if_splits)
  then show ?case
  proof cases
    case 1
    with Cons.IH obtain ws where "cs = ws @ t" "after_last_LF ws = Some []" by blast
    then show ?thesis using sp by (intro exI [of _ "c # ws"]) simp
  next
    case 2
    then show ?thesis using sp by (intro exI [of _ "[LF]"]) simp
  qed
qed

lemma upto_end_shape:
  "upto_end t = Some x \<Longrightarrow>
     \<exists>v. t = x @ v \<and> end_at v \<and> (\<forall>a b. x = a @ b \<and> b \<noteq> [] \<longrightarrow> \<not> end_at (b @ v))"
proof (induction t arbitrary: x)
  case Nil
  then show ?case by simp
next
  case (Cons c cs)
  show ?case
  proof (cases "end_at (c # cs)")
    case True
    with Cons.prems have "x = []" by simp
    with True show ?thesis by simp
  next
    case False
    with Cons.prems obtain x' where x: "x = c # x'" "upto_end cs = Some x'" by auto
    from Cons.IH [OF x(2)] obtain v where
      v: "cs = x' @ v" "end_at v" "\<forall>a b. x' = a @ b \<and> b \<noteq> [] \<longrightarrow> \<not> end_at (b @ v)" by blast
    have "\<not> end_at (b @ v)" if "x = a @ b" "b \<noteq> []" for a b
    proof (cases a)
      case Nil
      with that x(1) have "b = c # x'" by simp
      then show ?thesis using False v(1) by simp
    next
      case (Cons d a')
      with that x(1) have "x' = a' @ b" by simp
      with v(3) that(2) show ?thesis by blast
    qed
    with v(1,2) show ?thesis unfolding x(1) by (intro exI [of _ v]) auto
  qed
qed

lemma between_shape:
  assumes "between_at u = Some x"
  shows "\<exists>st v. u = st @ x @ v \<and> after_start st = Some [] \<and> end_at v
           \<and> (\<forall>a b. x = a @ b \<and> b \<noteq> [] \<longrightarrow> \<not> end_at (b @ v))"
proof -
  from assms have ph: "map lower (take 10 u) = ''daily data''"
    and f: "first_some upto_end (after_LFs (drop 10 u)) = Some x"
    unfolding between_at_def by (simp_all split: if_splits)
  from first_some_mem [OF f] obtain t where
    t: "t \<in> set (after_LFs (drop 10 u))" "upto_end t = Some x" by blast
  from after_LFs_mem [OF t(1)] obtain ws where
    ws: "drop 10 u = ws @ t" "after_last_LF ws = Some []" by blast
  from upto_end_shape [OF t(2)] obtain v where
    v: "t = x @ v" "end_at v" "\<forall>a b. x = a @ b \<and> b \<noteq> [] \<longrightarrow> \<not> end_at (b @ v)" by blast
  have len: "length (take 10 u) = 10"
  proof -
    from ph have "length (map lower (take 10 u)) = 10" by simp
    then show ?thesis by simp
  qed
  have "u = take 10 u @ drop 10 u" by simp
  then have u: "u = (take 10 u @ ws) @ x @ v" unfolding ws(1) v(1) by simp
  have "after_start (take 10 u @ ws) = Some []"
    unfolding after_start_def using ph len ws(2) by simp
  with u v(2,3) show ?thesis by blast
qed

lemma after_start_shape:
  assumes "after_start u = Some x"
  shows "\<exists>st. u = st @ x \<and> after_start st = Some []"
proof -
  from assms have ph: "map lower (take 10 u) = ''daily data''"
    and a: "after_last_LF (drop 10 u) = Some x"
    unfolding after_start_def by (simp_all split: if_splits)
  from after_last_LF_shape [OF a] obtain w where
    w: "drop 10 u = w @ x" "after_last_LF w = Some []" by blast
  have len: "length (take 10 u) = 10"
  proof -
    from ph have "length (map lower (take 10 u)) = 10" by simp
    then show ?thesis by simp
  qed
  have "u = take 10 u @ drop 10 u" by simp
  then have u: "u = (take 10 u @ w) @ x" unfolding w(1) by simp
  have "after_start (take 10 u @ w) = Some []"
    unfolding after_start_def using ph len w(2) by simp
  with u show ?thesis by blast
qed

lemma between_needs_start: "between_at u \<noteq> None \<Longrightarrow> after_start u \<noteq> None"
proof -
  assume "between_at u \<noteq> None"
  then obtain x where "between_at u = Some x" by blast
  then have ph: "map lower (take 10 u) = ''daily data''"
    and f: "first_some upto_end (after_LFs (drop 10 u)) = Some x"
    unfolding between_at_def by (simp_all split: if_splits)
  from first_some_mem [OF f] have "after_LFs (drop 10 u) \<noteq> []" by auto
  then show ?thesis unfolding after_start_def after_last_LFs using ph
    by (simp split: list.splits)
qed


text \<open>
  C4. A start marker is the phrase \<open>Daily Data\<close>, in any letter case, followed by
  whitespace that has a line feed; an end marker is a line feed, optional whitespace and
  the phrase \<open>Hourly Data\<close>, in any letter case. The locator returns the section of the
  block. Without a start marker this is the empty text. When a section between markers
  starts somewhere, the result comes right after a start marker, an end marker comes
  right after the result, and no end marker starts inside the result. Otherwise the
  result is everything after the leftmost start marker.
\<close>

theorem find_section:
  "find_daily_section block = section_of block
   \<and> ((\<forall>u \<in> set (tails block). after_start u = None) \<longrightarrow> find_daily_section block = [])
   \<and> (\<forall>x. first_some between_at (tails block) = Some x \<longrightarrow>
         find_daily_section block = x
       \<and> (\<exists>pre st v. block = pre @ st @ x @ v \<and> after_start st = Some [] \<and> end_at v
             \<and> (\<forall>a b. x = a @ b \<and> b \<noteq> [] \<longrightarrow> \<not> end_at (b @ v))))
   \<and> (first_some between_at (tails block) = None \<longrightarrow>
         (\<forall>x. first_some after_start (tails block) = Some x \<longrightarrow>
            find_daily_section block = x
          \<and> (\<exists>pre st. block = pre @ st @ x \<and> after_start st = Some [])))"
proof (intro conjI allI impI)
  show "find_daily_section block = section_of block" by (rule find_daily_section_of)
next
  assume a: "\<forall>u \<in> set (tails block). after_start u = None"
  then have "\<forall>u \<in> set (tails block). between_at u = None" using between_needs_start by blast
  with a have "first_some between_at (tails block) = None"
    "first_some after_start (tails block) = None"
    unfolding first_some_None by simp_all
  then show "find_daily_section block = []" unfolding find_daily_section_of section_of_def by simp
next
  fix x assume b: "first_some between_at (tails block) = Some x"
  then show "find_daily_section block = x" unfolding find_daily_section_of section_of_def by simp
  from first_some_mem [OF b] obtain u where u: "u \<in> set (tails block)" "between_at u = Some x"
    by blast
  from tails_mem [OF u(1)] obtain pre where pre: "block = pre @ u" ..
  from between_shape [OF u(2)] obtain st v where
    "u = st @ x @ v" "after_start st = Some []" "end_at v"
    "\<forall>a b. x = a @ b \<and> b \<noteq> [] \<longrightarrow> \<not> end_at (b @ v)" by blast
  with pre show "\<exists>pre st v. block = pre @ st @ x @ v \<and> after_start st = Some [] \<and> end_at v
             \<and> (\<forall>a b. x = a @ b \<and> b \<noteq> [] \<longrightarrow> \<not> end_at (b @ v))" by blast
next
  fix x assume n: "first_some between_at (tails block) = None"
    and a: "first_some after_start (tails block) = Some x"
  then show "find_daily_section block = x" unfolding find_daily_section_of section_of_def by simp
  from first_some_mem [OF a] obtain u where u: "u \<in> set (tails block)" "after_start u = Some x"
    by blast
  from tails_mem [OF u(1)] obtain pre where pre: "block = pre @ u" ..
  from after_start_shape [OF u(2)] obtain st where "u = st @ x" "after_start st = Some []" by blast
  with pre show "\<exists>pre st. block = pre @ st @ x \<and> after_start st = Some []" by blast
qed

lemma example_sections:
  "first_some between_at (tails block_with_section) = Some ''2025-01-01 5''"
  "first_some between_at (tails block_without_end) = None"
  "first_some after_start (tails block_without_end) = Some (''2025-01-01 5'' @ LF # ''2025-01-02 6'')"
  "\<forall>u \<in> set (tails ''App one''). after_start u = None"
  by code_simp+

theorem find_section_witness:
  "find_daily_section block_with_section = ''2025-01-01 5''
   \<and> find_daily_section block_without_end = ''2025-01-01 5'' @ LF # ''2025-01-02 6''
   \<and> find_daily_section ''App one'' = []"
proof -
  note a = find_section [of block_with_section, THEN conjunct2, THEN conjunct2, THEN conjunct1,
      rule_format, OF example_sections(1), THEN conjunct1]
  note b = find_section [of block_without_end, THEN conjunct2, THEN conjunct2, THEN conjunct2,
      rule_format, OF example_sections(2) example_sections(3), THEN conjunct1]
  note c = find_section [of "''App one''", THEN conjunct2, THEN conjunct1, THEN mp,
      OF example_sections(4)]
  from a b c show ?thesis by (intro conjI)
qed

theorem markers_inside_lines:
  "find_daily_section block_start_in_line = []
   \<and> find_daily_section block_end_in_line = ''abc Hourly Data''"
  by code_simp

end
